theory Spec2Isabelle
  imports Complex_Main "HOL-Library.Multiset"
begin

section \<open>Data model of the video stream writer\<close>

text \<open>
  The embedding follows \<^verbatim>\<open>PageVideoStreamWriter\<close> (the frame buffer, the duration
  computation and the feed of the encoder) and the \<^verbatim>\<open>stop\<close> method of
  \<^verbatim>\<open>PuppeteerScreenRecorder\<close>.

  Timestamps and durations are JavaScript numbers, that is doubles. A finite double is
  modelled as the real number it denotes: comparison of two numbers that are not NaN is
  the order of the reals (the collector drops every frame whose timestamp is falsy, NaN
  included), and the timestamps of one clock subtract without rounding. The product in
  \<^verbatim>\<open>write\<close> is rounded as the double multiplication rounds it (\<open>times_double\<close> below),
  and the \<^verbatim>\<open>durationSeconds\<close> that the public method \<^verbatim>\<open>write\<close> receives may also be
  NaN or infinite (\<open>number\<close> below).
  A \<^verbatim>\<open>Buffer\<close> is a list of bytes, here a list of naturals.
\<close>

type_synonym Buffer = "nat list"

text \<open>
  Modelled from the spec: the enum \<^verbatim>\<open>VIDEO_WRITE_STATUS\<close> is declared in
  \<^verbatim>\<open>pageVideoStreamTypes\<close>, which is not among the sources; the spec gives its three
  values NOT_STARTED, IN_PROGRESS, COMPLETED.
\<close>

datatype VIDEO_WRITE_STATUS = NOT_STARTED | IN_PROGRESS | COMPLETED

text \<open>A frame as \<^verbatim>\<open>_createPageScreenFrame\<close> returns it: \<^verbatim>\<open>{ timestamp, blob }\<close>.\<close>

record PageScreenFrame =
  timestamp :: real
  blob :: Buffer

text \<open>The object \<^verbatim>\<open>{ ...currentFrame, duration }\<close> built by \<^verbatim>\<open>_trimFrame\<close>.\<close>

record TimedFrame = PageScreenFrame +
  duration :: real

record VideoOptions =
  fps :: real

text \<open>
  Reading a property of \<^verbatim>\<open>undefined\<close> throws a TypeError; it is the only exception
  the modelled methods can throw.
\<close>

datatype error = TypeError

text \<open>
  The writer object. \<^verbatim>\<open>videoMediatorStream\<close> is the list of chunks written to the
  pass-through stream that feeds the encoder, oldest first, and \<^verbatim>\<open>endCalls\<close> counts
  the calls of its \<^verbatim>\<open>end()\<close>. \<^verbatim>\<open>writerPromise\<close> is the value the promise
  \<^verbatim>\<open>_writerPromise\<close> has settled to (\<open>None\<close> while it is pending). \<^verbatim>\<open>emitted\<close>
  lists the events the writer has emitted (name and message), \<^verbatim>\<open>consoleErrors\<close> the
  lines printed with \<^verbatim>\<open>console.error\<close>, \<^verbatim>\<open>writableErrors\<close> the errors forwarded to a
  caller-supplied writable stream.
\<close>

record PageVideoStreamWriter =
  screenCastFrames :: "PageScreenFrame list"
  status :: VIDEO_WRITE_STATUS
  options :: VideoOptions
  videoMediatorStream :: "Buffer list"
  endCalls :: nat
  writerPromise :: "bool option"
  emitted :: "(string \<times> string) list"
  consoleErrors :: "string list"
  writableErrors :: "string list"

definition screenLimit :: nat where
  "screenLimit = 40"

text \<open>The state after the constructor, for the given options.\<close>

definition newWriter :: "VideoOptions \<Rightarrow> PageVideoStreamWriter" where
  "newWriter opts =
     \<lparr>screenCastFrames = [], status = NOT_STARTED, options = opts,
      videoMediatorStream = [], endCalls = 0, writerPromise = None,
      emitted = [], consoleErrors = [], writableErrors = []\<rparr>"

section \<open>Operations\<close>

text \<open>JavaScript array indexing: \<^verbatim>\<open>xs[i]\<close> is \<^verbatim>\<open>undefined\<close> out of range.\<close>

definition at_index :: "'a list \<Rightarrow> int \<Rightarrow> 'a option" where
  "at_index xs i = (if 0 \<le> i \<and> i < int (length xs) then Some (xs ! nat i) else None)"

text \<open>
  \<^verbatim>\<open>Array.prototype.map\<close> with a callback that receives the element and its index and
  may throw; the first exception ends the traversal.
\<close>

primrec map_indexed :: "('a \<Rightarrow> int \<Rightarrow> error + 'b) \<Rightarrow> 'a list \<Rightarrow> int \<Rightarrow> error + 'b list" where
  "map_indexed f [] i = Inr []"
| "map_indexed f (x # xs) i =
     (case f x i of
        Inl e \<Rightarrow> Inl e
      | Inr y \<Rightarrow> (case map_indexed f xs (i + 1) of
                    Inl e \<Rightarrow> Inl e
                  | Inr ys \<Rightarrow> Inr (y # ys)))"

text \<open>
  \<^verbatim>\<open>_trimFrame\<close>: the end time of a frame is the timestamp of the next frame of the
  list, and \<^verbatim>\<open>chunckEndTime\<close> for the last one; the duration is the difference.
\<close>

definition trimFrame_callback ::
    "PageScreenFrame list \<Rightarrow> real \<Rightarrow> PageScreenFrame \<Rightarrow> int \<Rightarrow> error + TimedFrame" where
  "trimFrame_callback fameList chunckEndTime currentFrame index =
     (case (if index \<noteq> int (length fameList) - 1
            then (case at_index fameList (index + 1) of
                    None \<Rightarrow> Inl TypeError
                  | Some nextFrame \<Rightarrow> Inr (timestamp nextFrame))
            else Inr chunckEndTime) of
        Inl e \<Rightarrow> Inl e
      | Inr endTime \<Rightarrow>
          Inr \<lparr>timestamp = timestamp currentFrame, blob = blob currentFrame,
               duration = endTime - timestamp currentFrame\<rparr>)"

definition trimFrame :: "PageScreenFrame list \<Rightarrow> real \<Rightarrow> error + TimedFrame list" where
  "trimFrame fameList chunckEndTime =
     map_indexed (trimFrame_callback fameList chunckEndTime) fameList 0"

text \<open>
  The multiplication of two finite doubles: the exact product, rounded to the nearest
  double, ties to the even significand. \<open>binary_exponent x\<close> is the \<open>e\<close> with
  \<^verbatim>\<open>2^e <= x < 2^(e+1)\<close>; a double has 53 significant bits, and its exponent is at least
  \<open>-1022\<close> (below, the doubles are evenly spaced). A product beyond the range of the
  doubles is an infinity in JavaScript; here it stays a real of that size.
\<close>

function binary_exponent :: "real \<Rightarrow> int" where
  "binary_exponent x =
     (if x \<le> 0 then 0
      else if 2 \<le> x then binary_exponent (x / 2) + 1
      else if x < 1 then binary_exponent (x * 2) - 1
      else 0)"
  by pat_completeness auto
termination
proof (relation "measure (\<lambda>x. if 1 \<le> x then nat \<lfloor>log 2 x\<rfloor> else nat \<lceil>- log 2 x\<rceil>)")
  show "wf (measure (\<lambda>x. if 1 \<le> x then nat \<lfloor>log 2 x\<rfloor> else nat \<lceil>- log 2 x\<rceil>))" by simp
next
  fix x :: real assume "\<not> x \<le> 0" "2 \<le> x"
  then have "log 2 (x / 2) = log 2 x - 1" "1 \<le> log 2 x"
    by (simp_all add: log_divide le_log_iff)
  then have "\<lfloor>log 2 (x / 2)\<rfloor> = \<lfloor>log 2 x\<rfloor> - 1" "1 \<le> \<lfloor>log 2 x\<rfloor>"
    by (simp_all add: le_floor_iff)
  with \<open>2 \<le> x\<close>
  show "(x / 2, x) \<in> measure (\<lambda>x. if 1 \<le> x then nat \<lfloor>log 2 x\<rfloor> else nat \<lceil>- log 2 x\<rceil>)"
    by simp
next
  fix x :: real assume a: "\<not> x \<le> 0" "\<not> 2 \<le> x" "x < 1"
  then have l: "log 2 (x * 2) = log 2 x + 1" "log 2 x < 0"
    by (simp_all add: log_mult)
  show "(x * 2, x) \<in> measure (\<lambda>x. if 1 \<le> x then nat \<lfloor>log 2 x\<rfloor> else nat \<lceil>- log 2 x\<rceil>)"
  proof (cases "1 \<le> x * 2")
    case True
    with a have "0 \<le> log 2 (x * 2)" "log 2 (x * 2) < 1"
      by (simp_all add: less_log_iff log_less_iff)
    then have "\<lfloor>log 2 (x * 2)\<rfloor> = 0" by linarith
    moreover have "1 \<le> \<lceil>- log 2 x\<rceil>" using l(2) by linarith
    ultimately show ?thesis using True a by simp
  next
    case False
    with a have "log 2 (x * 2) < 0" by simp
    with l have "\<lceil>- log 2 (x * 2)\<rceil> = \<lceil>- log 2 x\<rceil> - 1" "2 \<le> \<lceil>- log 2 x\<rceil>"
      by linarith+
    with False a show ?thesis by simp
  qed
qed

declare binary_exponent.simps [simp del]

definition round_ties_even :: "real \<Rightarrow> int" where
  "round_ties_even x =
     (let f = \<lfloor>x\<rfloor>; r = x - of_int f
      in if r < 1 / 2 then f else if 1 / 2 < r then f + 1 else if even f then f else f + 1)"

definition double_round :: "real \<Rightarrow> real" where
  "double_round x =
     (if x = 0 then 0
      else (let q = 2 powi (max (binary_exponent \<bar>x\<bar>) (- 1022) - 52)
            in of_int (round_ties_even (x / q)) * q))"

definition times_double :: "real \<Rightarrow> real \<Rightarrow> real" where
  "times_double x y = double_round (x * y)"

text \<open>
  \<^verbatim>\<open>write\<close> at a finite \<^verbatim>\<open>durationSeconds\<close>: the status becomes IN_PROGRESS and the
  chunk is written \<^verbatim>\<open>Math.max(Math.floor(durationSeconds * fps), 1)\<close> times. The counter
  of the loop is a double too; it counts without rounding up to \<^verbatim>\<open>2^53\<close>, and the model
  counts in the integers (with a greater count the loop of the code does not end, see
  \<open>write_number\<close>).
\<close>

definition NUMBER_OF_FPS :: "VideoOptions \<Rightarrow> real \<Rightarrow> int" where
  "NUMBER_OF_FPS opts durationSeconds = max \<lfloor>times_double durationSeconds (fps opts)\<rfloor> 1"

function write_loop :: "int \<Rightarrow> int \<Rightarrow> Buffer \<Rightarrow> Buffer list \<Rightarrow> Buffer list" where
  "write_loop i n data stream =
     (if i < n then write_loop (i + 1) n data (stream @ [data]) else stream)"
  by pat_completeness auto
termination
  by (relation "measure (\<lambda>(i, n, data, stream). nat (n - i))") auto

declare write_loop.simps [simp del]

text \<open>The method is \<^verbatim>\<open>write\<close>; that word is reserved in theory texts.\<close>

definition write_data :: "PageVideoStreamWriter \<Rightarrow> Buffer \<Rightarrow> real \<Rightarrow> PageVideoStreamWriter" where
  "write_data w data durationSeconds =
     w\<lparr>status := IN_PROGRESS,
       videoMediatorStream :=
         write_loop 0 (NUMBER_OF_FPS (options w) durationSeconds) data (videoMediatorStream w)\<rparr>"

text \<open>
  The public method \<^verbatim>\<open>write\<close> at any number. With NaN the product, its floor and the
  maximum with 1 are NaN, and \<^verbatim>\<open>0 < NaN\<close> is false: the status is set and nothing is
  written. An infinity times \<^verbatim>\<open>fps\<close> is the infinity of the product of the signs, and
  NaN when \<^verbatim>\<open>fps\<close> is 0; the maximum of minus infinity and 1 is 1. When the count is
  plus infinity or above \<^verbatim>\<open>2^53\<close>, the counter never reaches it (\<^verbatim>\<open>2^53 + 1\<close> is rounded to
  \<^verbatim>\<open>2^53\<close>) and the call does not return: the result is \<open>None\<close>. (A call without
  a duration takes the default, the number 1.)
\<close>

datatype number = Finite real | NaN | PlusInfinity | MinusInfinity

definition write_number ::
    "PageVideoStreamWriter \<Rightarrow> Buffer \<Rightarrow> number \<Rightarrow> PageVideoStreamWriter option" where
  "write_number w data durationSeconds =
     (case durationSeconds of
        Finite d \<Rightarrow>
          if NUMBER_OF_FPS (options w) d \<le> 2 ^ 53 then Some (write_data w data d) else None
      | NaN \<Rightarrow> Some (w\<lparr>status := IN_PROGRESS\<rparr>)
      | PlusInfinity \<Rightarrow>
          if 0 < fps (options w) then None
          else if fps (options w) < 0
          then Some (w\<lparr>status := IN_PROGRESS,
                      videoMediatorStream := write_loop 0 1 data (videoMediatorStream w)\<rparr>)
          else Some (w\<lparr>status := IN_PROGRESS\<rparr>)
      | MinusInfinity \<Rightarrow>
          if fps (options w) < 0 then None
          else if 0 < fps (options w)
          then Some (w\<lparr>status := IN_PROGRESS,
                      videoMediatorStream := write_loop 0 1 data (videoMediatorStream w)\<rparr>)
          else Some (w\<lparr>status := IN_PROGRESS\<rparr>))"

text \<open>\<^verbatim>\<open>_processFrameBeforeWrite\<close>: the durations are computed, then every frame is written.\<close>

definition processFrameBeforeWrite ::
    "PageVideoStreamWriter \<Rightarrow> PageScreenFrame list \<Rightarrow> real \<Rightarrow> error + PageVideoStreamWriter" where
  "processFrameBeforeWrite w frames chunckEndTime =
     (case trimFrame frames chunckEndTime of
        Inl e \<Rightarrow> Inl e
      | Inr processedFrames \<Rightarrow>
          Inr (fold (\<lambda>f w'. write_data w' (blob f) (duration f)) processedFrames w))"

text \<open>
  \<^verbatim>\<open>_findSlot\<close>. The loop runs \<^verbatim>\<open>i\<close> from \<^verbatim>\<open>length - 1\<close> down to \<^verbatim>\<open>0\<close>, leaves at
  the first frame whose timestamp is below the new one, and the result is \<^verbatim>\<open>i + 1\<close>.
  The argument \<open>k\<close> of \<open>findSlot_loop\<close> is \<^verbatim>\<open>i + 1\<close>, so \<open>k = 0\<close> is the exit with
  \<^verbatim>\<open>i = -1\<close>; the index read is always below the length the loop started from.
\<close>

fun findSlot_loop :: "PageScreenFrame list \<Rightarrow> real \<Rightarrow> nat \<Rightarrow> nat" where
  "findSlot_loop frames ts 0 = 0"
| "findSlot_loop frames ts (Suc i) =
     (if ts > timestamp (frames ! i) then Suc i else findSlot_loop frames ts i)"

definition findSlot :: "PageVideoStreamWriter \<Rightarrow> real \<Rightarrow> nat" where
  "findSlot w ts =
     (if length (screenCastFrames w) = 0 then 0
      else findSlot_loop (screenCastFrames w) ts (length (screenCastFrames w)))"

text \<open>\<^verbatim>\<open>Math.floor(this._screenLimit / 2)\<close>.\<close>

definition numberOfFramesToSplice :: nat where
  "numberOfFramesToSplice = nat \<lfloor>real screenLimit / 2\<rfloor>"

text \<open>
  \<^verbatim>\<open>insert\<close>, from the frame that \<^verbatim>\<open>_createPageScreenFrame\<close> has produced (the image
  transformation is outside the model). \<^verbatim>\<open>splice(0, n)\<close> removes and returns the first
  \<open>n\<close> elements; \<^verbatim>\<open>splice(k, 0, frame)\<close> inserts the frame at index \<open>k\<close>.
\<close>

definition drainHalf :: "PageVideoStreamWriter \<Rightarrow> error + PageVideoStreamWriter" where
  "drainHalf w =
     (if length (screenCastFrames w) = screenLimit
      then (let framesToProcess = take numberOfFramesToSplice (screenCastFrames w);
                w1 = w\<lparr>screenCastFrames := drop numberOfFramesToSplice (screenCastFrames w)\<rparr>
            in case at_index (screenCastFrames w1) 0 of
                 None \<Rightarrow> Inl TypeError
               | Some newHead \<Rightarrow> processFrameBeforeWrite w1 framesToProcess (timestamp newHead))
      else Inr w)"

definition placeFrame :: "PageVideoStreamWriter \<Rightarrow> PageScreenFrame \<Rightarrow> PageVideoStreamWriter" where
  "placeFrame w frame =
     (let insertionIndex = findSlot w (timestamp frame)
      in if insertionIndex = length (screenCastFrames w)
         then w\<lparr>screenCastFrames := screenCastFrames w @ [frame]\<rparr>
         else w\<lparr>screenCastFrames :=
                  take insertionIndex (screenCastFrames w) @ frame #
                  drop insertionIndex (screenCastFrames w)\<rparr>)"

definition insert_frame ::
    "PageVideoStreamWriter \<Rightarrow> PageScreenFrame \<Rightarrow> error + PageVideoStreamWriter" where
  "insert_frame w frame =
     (case drainHalf w of
        Inl e \<Rightarrow> Inl e
      | Inr w1 \<Rightarrow> Inr (placeFrame w1 frame))"

text \<open>A sequence of \<^verbatim>\<open>insert\<close> calls, in the order in which the frames arrive.\<close>

fun inserts :: "PageVideoStreamWriter \<Rightarrow> PageScreenFrame list \<Rightarrow> error + PageVideoStreamWriter" where
  "inserts w [] = Inr w"
| "inserts w (f # fs) =
     (case insert_frame w f of Inl e \<Rightarrow> Inl e | Inr w' \<Rightarrow> inserts w' fs)"

text \<open>\<^verbatim>\<open>_drainFrames\<close> and \<^verbatim>\<open>stop\<close>; \<^verbatim>\<open>stop\<close> returns the promise \<^verbatim>\<open>_writerPromise\<close>.\<close>

definition drainFrames :: "PageVideoStreamWriter \<Rightarrow> real \<Rightarrow> error + PageVideoStreamWriter" where
  "drainFrames w stoppedTime =
     (case processFrameBeforeWrite w (screenCastFrames w) stoppedTime of
        Inl e \<Rightarrow> Inl e
      | Inr w' \<Rightarrow> Inr (w'\<lparr>screenCastFrames := []\<rparr>))"

definition stop ::
    "PageVideoStreamWriter \<Rightarrow> real \<Rightarrow> error + (bool option \<times> PageVideoStreamWriter)" where
  "stop w stoppedTime =
     (if status w = COMPLETED then Inr (writerPromise w, w)
      else (case drainFrames w stoppedTime of
              Inl e \<Rightarrow> Inl e
            | Inr w1 \<Rightarrow>
                (let w2 = w1\<lparr>endCalls := endCalls w1 + 1\<rparr>;
                     w3 = w2\<lparr>status := COMPLETED\<rparr>
                 in Inr (writerPromise w3, w3))))"

section \<open>Errors of the encoder\<close>

text \<open>\<^verbatim>\<open>String.prototype.includes\<close>: the second string occurs in the first.\<close>

primrec includes_str :: "string \<Rightarrow> string \<Rightarrow> bool" where
  "includes_str [] sub = (sub = [])"
| "includes_str (c # cs) sub = (take (length sub) (c # cs) = sub \<or> includes_str cs sub)"

text \<open>
  \<^verbatim>\<open>_handleWriteStreamError\<close>: the event is emitted first; then the message is printed,
  unless the status is not IN_PROGRESS and the message contains \<^verbatim>\<open>pipe:0: End of file\<close>.
\<close>

definition handleWriteStreamError :: "PageVideoStreamWriter \<Rightarrow> string \<Rightarrow> PageVideoStreamWriter" where
  "handleWriteStreamError w errorMessage =
     (let w1 = w\<lparr>emitted := emitted w @ [(''videoStreamWriterError'', errorMessage)]\<rparr>
      in if status w1 \<noteq> IN_PROGRESS \<and> includes_str errorMessage ''pipe:0: End of file''
         then w1
         else w1\<lparr>consoleErrors := consoleErrors w1 @
                    [''Error unable to capture video stream: '' @ errorMessage]\<rparr>)"

text \<open>\<^verbatim>\<open>resolve(v)\<close> of \<^verbatim>\<open>_writerPromise\<close>: a promise settles once.\<close>

definition resolve :: "bool \<Rightarrow> PageVideoStreamWriter \<Rightarrow> PageVideoStreamWriter" where
  "resolve v w = (case writerPromise w of None \<Rightarrow> w\<lparr>writerPromise := Some v\<rparr> | Some _ \<Rightarrow> w)"

text \<open>
  The \<^verbatim>\<open>'error'\<close> listeners that the constructor puts on the encoder: for a file
  destination (\<^verbatim>\<open>_configureVideoFile\<close>) and for a caller-supplied writable stream
  (\<^verbatim>\<open>_configureVideoWritableStream\<close>), which receives the error itself.
\<close>

definition onErrorVideoFile :: "PageVideoStreamWriter \<Rightarrow> string \<Rightarrow> PageVideoStreamWriter" where
  "onErrorVideoFile w message = resolve False (handleWriteStreamError w message)"

definition onErrorVideoWritableStream :: "PageVideoStreamWriter \<Rightarrow> string \<Rightarrow> PageVideoStreamWriter" where
  "onErrorVideoWritableStream w message =
     resolve False (w\<lparr>writableErrors := writableErrors w @ [message]\<rparr>)"

section \<open>The recorder\<close>

text \<open>
  \<^verbatim>\<open>pageVideoStreamCollector.stop\<close> keeps the flag \<^verbatim>\<open>_isStreamingEnded\<close>; the sessions
  are detached in the call that sets it (\<^verbatim>\<open>detachRounds\<close> counts these calls).
\<close>

record pageVideoStreamCollector =
  isStreamingEnded :: bool
  detachRounds :: nat

definition collector_stop :: "pageVideoStreamCollector \<Rightarrow> bool \<times> pageVideoStreamCollector" where
  "collector_stop c =
     (if isStreamingEnded c then (isStreamingEnded c, c)
      else (True, c\<lparr>isStreamingEnded := True, detachRounds := detachRounds c + 1\<rparr>))"

record PuppeteerScreenRecorder =
  streamReader :: pageVideoStreamCollector
  streamWriter :: PageVideoStreamWriter
  isScreenCaptureEnded :: "bool option"

text \<open>
  \<^verbatim>\<open>PuppeteerScreenRecorder.stop\<close>, called at the time \<open>now\<close> (the default of the
  writer's \<^verbatim>\<open>stoppedTime\<close>). With the memo \<^verbatim>\<open>_isScreenCaptureEnded\<close> set, the call
  returns it. Otherwise the collector is stopped, the writer is stopped, and the call
  awaits the promise that the writer's \<^verbatim>\<open>stop\<close> returns: it goes on when the promise
  has settled. A promise that is still pending when the writer's \<^verbatim>\<open>stop\<close> returns
  (the encoder ends after its input has ended) is settled by a listener of the encoder,
  with \<open>encoderOutcome\<close>: \<^verbatim>\<open>resolve(true)\<close> in the \<^verbatim>\<open>'end'\<close> listener,
  \<^verbatim>\<open>resolve(false)\<close> in the \<^verbatim>\<open>'error'\<close> listener. The call then stores the value of
  the promise in the memo and returns it. (A call whose promise never settles does not
  return; it is no result of this function.)
\<close>

definition recorder_stop ::
    "PuppeteerScreenRecorder \<Rightarrow> real \<Rightarrow> bool \<Rightarrow> error + (bool \<times> PuppeteerScreenRecorder)" where
  "recorder_stop r now encoderOutcome =
     (case isScreenCaptureEnded r of
        Some b \<Rightarrow> Inr (b, r)
      | None \<Rightarrow>
          (let r1 = r\<lparr>streamReader := snd (collector_stop (streamReader r))\<rparr>
           in case stop (streamWriter r1) now of
                Inl e \<Rightarrow> Inl e
              | Inr (promise, w') \<Rightarrow>
                  (case promise of
                     Some b \<Rightarrow>
                       Inr (b, r1\<lparr>streamWriter := w', isScreenCaptureEnded := Some b\<rparr>)
                   | None \<Rightarrow>
                       Inr (encoderOutcome,
                            r1\<lparr>streamWriter := resolve encoderOutcome w',
                               isScreenCaptureEnded := Some encoderOutcome\<rparr>))))"

section \<open>A whole recording\<close>

text \<open>
  A new writer, the \<^verbatim>\<open>insert\<close> calls for the frames in the order of their arrival, then
  \<^verbatim>\<open>stop\<close>; the result is the writer after \<^verbatim>\<open>stop\<close>.
\<close>

definition insert_all_then_stop ::
    "VideoOptions \<Rightarrow> PageScreenFrame list \<Rightarrow> real \<Rightarrow> error + PageVideoStreamWriter" where
  "insert_all_then_stop opts frames stoppedTime =
     (case inserts (newWriter opts) frames of
        Inl e \<Rightarrow> Inl e
      | Inr w \<Rightarrow> (case stop w stoppedTime of
                    Inl e \<Rightarrow> Inl e
                  | Inr (promise, w') \<Rightarrow> Inr w'))"

text \<open>
  The frames in the order in which they are handed to \<^verbatim>\<open>_processFrameBeforeWrite\<close>, and
  so to \<^verbatim>\<open>write\<close>. \<open>framesToProcess w\<close> is the local \<^verbatim>\<open>framesToProcess\<close> of an
  \<^verbatim>\<open>insert\<close> call on \<open>w\<close>, empty when the buffer is not full and nothing is spliced.
  \<open>flushed_by_inserts w frames\<close> lists what the half drains of the \<^verbatim>\<open>insert\<close> calls for
  \<open>frames\<close> remove, and \<open>write_order\<close> adds the buffer that the final \<^verbatim>\<open>stop\<close> drains.
\<close>

definition framesToProcess :: "PageVideoStreamWriter \<Rightarrow> PageScreenFrame list" where
  "framesToProcess w =
     (if length (screenCastFrames w) = screenLimit
      then take numberOfFramesToSplice (screenCastFrames w) else [])"

fun flushed_by_inserts :: "PageVideoStreamWriter \<Rightarrow> PageScreenFrame list \<Rightarrow> PageScreenFrame list" where
  "flushed_by_inserts w [] = []"
| "flushed_by_inserts w (f # fs) =
     framesToProcess w @
     (case insert_frame w f of Inl e \<Rightarrow> [] | Inr w' \<Rightarrow> flushed_by_inserts w' fs)"

definition write_order :: "VideoOptions \<Rightarrow> PageScreenFrame list \<Rightarrow> PageScreenFrame list" where
  "write_order opts frames =
     flushed_by_inserts (newWriter opts) frames @
     (case inserts (newWriter opts) frames of Inl e \<Rightarrow> [] | Inr w \<Rightarrow> screenCastFrames w)"

section \<open>Concrete inputs\<close>

text \<open>The frame with timestamp \<open>n\<close> whose image is the single byte \<open>n\<close>.\<close>

definition frame_no :: "nat \<Rightarrow> PageScreenFrame" where
  "frame_no n = \<lparr>timestamp = real n, blob = [n]\<rparr>"

text \<open>Forty frames in the order of their timestamps 1 to 40, then a late frame with timestamp 0.\<close>

definition frames_1_to_40 :: "PageScreenFrame list" where
  "frames_1_to_40 = map frame_no [1..<41]"

definition late_arrival :: "PageScreenFrame list" where
  "late_arrival = frames_1_to_40 @ [frame_no 0]"

section \<open>Properties\<close>

subsection \<open>Writing a frame to the encoder\<close>

lemma write_loop_replicate:
  "write_loop i n d st = st @ replicate (nat (n - i)) d"
proof (induction i n d st rule: write_loop.induct)
  case (1 i n d st)
  show ?case
  proof (cases "i < n")
    case True
    then have "nat (n - i) = Suc (nat (n - (i + 1)))" by simp
    with True 1 show ?thesis
      by (subst write_loop.simps) (simp add: replicate_append_same del: replicate_Suc flip: replicate_Suc)
  next
    case False
    then show ?thesis by (subst write_loop.simps) simp
  qed
qed

lemma write_data_eq:
  "write_data w d dur =
     w\<lparr>status := IN_PROGRESS,
       videoMediatorStream :=
         videoMediatorStream w @ replicate (nat (NUMBER_OF_FPS (options w) dur)) d\<rparr>"
  by (simp add: write_data_def write_loop_replicate)

lemma NUMBER_OF_FPS_pos: "1 \<le> NUMBER_OF_FPS opts dur"
  by (simp add: NUMBER_OF_FPS_def)

lemma fold_write_data_eq:
  "fold (\<lambda>f w'. write_data w' (blob f) (duration f)) tfs w =
     w\<lparr>status := (if tfs = [] then status w else IN_PROGRESS),
       videoMediatorStream :=
         videoMediatorStream w @
         concat (map (\<lambda>f. replicate (nat (NUMBER_OF_FPS (options w) (duration f))) (blob f)) tfs)\<rparr>"
  by (induction tfs arbitrary: w) (simp_all add: write_data_eq)

subsection \<open>Durations\<close>

lemma map_indexed_nth:
  assumes "\<And>i. k \<le> i \<Longrightarrow> i < length xs \<Longrightarrow> f (xs ! i) (int i) = Inr (g i)"
    and "k \<le> length xs"
  shows "map_indexed f (drop k xs) (int k) = Inr (map g [k..<length xs])"
  using assms
proof (induction "length xs - k" arbitrary: k)
  case 0
  then show ?case by simp
next
  case (Suc n)
  then have k: "k < length xs" by simp
  then have d: "drop k xs = xs ! k # drop (Suc k) xs" by (simp add: Cons_nth_drop_Suc)
  have "map_indexed f (drop (Suc k) xs) (int (Suc k)) = Inr (map g [Suc k..<length xs])"
    using Suc k by (intro Suc.hyps(1)) auto
  then have ih: "map_indexed f (drop (Suc k) xs) (int k + 1) = Inr (map g [Suc k..<length xs])"
    by (simp add: add.commute)
  from ih k Suc.prems(1) [of k] show ?case
    by (simp add: d upt_conv_Cons)
qed

lemma trimFrame_callback_in_range:
  "i < length fl \<Longrightarrow>
   trimFrame_callback fl e (fl ! i) (int i) =
     Inr \<lparr>timestamp = timestamp (fl ! i), blob = blob (fl ! i),
          duration = (if Suc i < length fl then timestamp (fl ! Suc i) else e) - timestamp (fl ! i)\<rparr>"
  by (auto simp: trimFrame_callback_def at_index_def nat_add_distrib)

lemma trimFrame_eq:
  "trimFrame fl e =
     Inr (map (\<lambda>i. \<lparr>timestamp = timestamp (fl ! i), blob = blob (fl ! i),
                     duration = (if Suc i < length fl then timestamp (fl ! Suc i) else e)
                                - timestamp (fl ! i)\<rparr>) [0..<length fl])"
  using map_indexed_nth [of 0 fl "trimFrame_callback fl e" _]
  by (simp add: trimFrame_def trimFrame_callback_in_range)


text \<open>
  Claim C4, as stated, fails: no duration is clamped. With the timestamps 10, 5 and the
  batch end time 12 the first duration is \<open>5 - 10 = -5\<close>.
\<close>

theorem trimFrame_regress_negative:
  "trimFrame [\<lparr>timestamp = 10, blob = [1]\<rparr>, \<lparr>timestamp = 5, blob = [2]\<rparr>] 12 =
     Inr [\<lparr>timestamp = 10, blob = [1], duration = - 5\<rparr>, \<lparr>timestamp = 5, blob = [2], duration = 7\<rparr>]
   \<and> (- 5 :: real) < 0"
  by (simp add: trimFrame_def trimFrame_callback_def at_index_def)

text \<open>
  Claim C4, amended. \<^verbatim>\<open>_trimFrame\<close> never throws and returns one timed frame per
  input frame. The durations are plain differences: all of them are non-negative
  exactly when the timestamps of the list are non-decreasing and the batch end time is
  not below the last timestamp.
\<close>

theorem trimFrame_total_nonneg_iff:
  "\<exists>timed. trimFrame fameList batchEndTime = Inr timed \<and> length timed = length fameList \<and>
     ((\<forall>t \<in> set timed. 0 \<le> duration t) \<longleftrightarrow>
      sorted (map timestamp fameList) \<and>
      (fameList \<noteq> [] \<longrightarrow> timestamp (last fameList) \<le> batchEndTime))"
proof -
  let ?d = "\<lambda>i. (if Suc i < length fameList then timestamp (fameList ! Suc i) else batchEndTime)
                                - timestamp (fameList ! i)"
  let ?timed = "map (\<lambda>i. \<lparr>timestamp = timestamp (fameList ! i), blob = blob (fameList ! i),
                     duration = ?d i\<rparr>) [0..<length fameList]"
  have a: "(\<forall>t \<in> set ?timed. 0 \<le> duration t) \<longleftrightarrow> (\<forall>i < length fameList. 0 \<le> ?d i)"
    by auto
  have b: "(\<forall>i < length fameList. 0 \<le> ?d i) \<longleftrightarrow>
        (\<forall>i. Suc i < length fameList \<longrightarrow> timestamp (fameList ! i) \<le> timestamp (fameList ! Suc i)) \<and>
        (fameList \<noteq> [] \<longrightarrow> timestamp (last fameList) \<le> batchEndTime)"
  proof (cases "fameList = []")
    case True
    then show ?thesis by simp
  next
    case False
    then have n: "length fameList - 1 < length fameList" "\<not> Suc (length fameList - 1) < length fameList"
      by simp_all
    show ?thesis
    proof (intro iffI conjI allI impI)
      fix i assume h: "\<forall>i < length fameList. 0 \<le> ?d i" and i: "Suc i < length fameList"
      from i have "i < length fameList" by simp
      with h have "0 \<le> ?d i" by blast
      with i show "timestamp (fameList ! i) \<le> timestamp (fameList ! Suc i)" by simp
    next
      assume h: "\<forall>i < length fameList. 0 \<le> ?d i"
      then have "0 \<le> ?d (length fameList - 1)" using n by blast
      with n False show "timestamp (last fameList) \<le> batchEndTime"
        by (simp add: last_conv_nth)
    next
      fix i assume h: "(\<forall>i. Suc i < length fameList \<longrightarrow> timestamp (fameList ! i) \<le> timestamp (fameList ! Suc i)) \<and>
        (fameList \<noteq> [] \<longrightarrow> timestamp (last fameList) \<le> batchEndTime)" and i: "i < length fameList"
      show "0 \<le> ?d i"
      proof (cases "Suc i < length fameList")
        case True
        with h show ?thesis by simp
      next
        case F: False
        with i have "i = length fameList - 1" by simp
        with h False F show ?thesis by (simp add: last_conv_nth)
      qed
    qed
  qed
  have c: "sorted (map timestamp fameList) \<longleftrightarrow>
        (\<forall>i. Suc i < length fameList \<longrightarrow> timestamp (fameList ! i) \<le> timestamp (fameList ! Suc i))"
    by (simp add: sorted_iff_nth_Suc)
  show ?thesis
    by (intro exI [of _ ?timed] conjI) (simp_all only: trimFrame_eq a b c length_map length_upt minus_nat.diff_0)
qed


text \<open>
  The amended theorem at the timestamps 1, 4 and the batch end time 6.
\<close>

theorem trimFrame_total_nonneg_iff_witness:
  "\<exists>timed. trimFrame [frame_no 1, frame_no 4] 6 = Inr timed \<and> length timed = 2 \<and>
     (\<forall>t \<in> set timed. 0 \<le> duration t)"
  using trimFrame_total_nonneg_iff [of "[frame_no 1, frame_no 4]" 6]
  by (simp add: frame_no_def numeral_2_eq_2)

lemma write_number_finite:
  "NUMBER_OF_FPS (options w) d \<le> 2 ^ 53 \<Longrightarrow> write_number w data (Finite d) = Some (write_data w data d)"
  by (simp add: write_number_def)

text \<open>
  Claim C2, amended. One call of \<^verbatim>\<open>write\<close> with a finite \<^verbatim>\<open>durationSeconds\<close> appends the
  chunk to the stream \<open>max(floor(durationSeconds * fps), 1)\<close> times, at least once, and
  sets the status to IN_PROGRESS; the product is the product of the doubles, rounded to
  the nearest double before the floor is taken, and the call returns when this count is
  at most \<^verbatim>\<open>2^53\<close>. With a greater count the call does not return. With NaN the status is
  set and nothing is written. With a positive \<^verbatim>\<open>fps\<close>, plus infinity gives a call that
  does not return and minus infinity one chunk.
\<close>

theorem write_number_repetitions:
  "(NUMBER_OF_FPS (options w) d \<le> 2 ^ 53 \<longrightarrow>
      (\<exists>n. write_number w data (Finite d) = Some (write_data w data d) \<and>
         videoMediatorStream (write_data w data d) = videoMediatorStream w @ replicate n data \<and>
         int n = max \<lfloor>double_round (d * fps (options w))\<rfloor> 1 \<and> 1 \<le> n \<and>
         status (write_data w data d) = IN_PROGRESS)) \<and>
   (2 ^ 53 < NUMBER_OF_FPS (options w) d \<longrightarrow> write_number w data (Finite d) = None) \<and>
   write_number w data NaN = Some (w\<lparr>status := IN_PROGRESS\<rparr>) \<and>
   (0 < fps (options w) \<longrightarrow>
      write_number w data PlusInfinity = None \<and>
      write_number w data MinusInfinity =
        Some (w\<lparr>status := IN_PROGRESS, videoMediatorStream := videoMediatorStream w @ [data]\<rparr>))"
proof (intro conjI impI)
  assume b: "NUMBER_OF_FPS (options w) d \<le> 2 ^ 53"
  let ?n = "NUMBER_OF_FPS (options w) d"
  have "1 \<le> ?n" by (rule NUMBER_OF_FPS_pos)
  then have n: "int (nat ?n) = ?n" "1 \<le> nat ?n" by linarith+
  have "?n = max \<lfloor>double_round (d * fps (options w))\<rfloor> 1"
    by (simp add: NUMBER_OF_FPS_def times_double_def)
  with n b show "\<exists>n. write_number w data (Finite d) = Some (write_data w data d) \<and>
         videoMediatorStream (write_data w data d) = videoMediatorStream w @ replicate n data \<and>
         int n = max \<lfloor>double_round (d * fps (options w))\<rfloor> 1 \<and> 1 \<le> n \<and>
         status (write_data w data d) = IN_PROGRESS"
    by (intro exI [of _ "nat ?n"]) (simp add: write_data_eq write_number_finite)
next
  assume "2 ^ 53 < NUMBER_OF_FPS (options w) d"
  then show "write_number w data (Finite d) = None" by (simp add: write_number_def)
next
  show "write_number w data NaN = Some (w\<lparr>status := IN_PROGRESS\<rparr>)"
    by (simp add: write_number_def)
next
  assume "0 < fps (options w)"
  then show "write_number w data PlusInfinity = None" by (simp add: write_number_def)
next
  assume "0 < fps (options w)"
  then show "write_number w data MinusInfinity =
        Some (w\<lparr>status := IN_PROGRESS, videoMediatorStream := videoMediatorStream w @ [data]\<rparr>)"
    by (simp add: write_number_def write_loop_replicate)
qed

text \<open>
  The amended theorem at 25 frames per second and the double nearest to 0.12, which is
  \<open>1080863910568919 / 2^53\<close>: the exact product is just below 3, the product of the
  doubles is 3, and the chunk is written three times.
\<close>

theorem write_number_repetitions_witness:
  "NUMBER_OF_FPS (options (newWriter \<lparr>fps = 25\<rparr>)) (1080863910568919 / 2 ^ 53) \<le> 2 ^ 53 \<and>
   0 < fps (options (newWriter \<lparr>fps = 25\<rparr>)) \<and>
   \<lfloor>(1080863910568919 / 2 ^ 53 :: real) * 25\<rfloor> = 2 \<and>
   (\<exists>w'. write_number (newWriter \<lparr>fps = 25\<rparr>) [1] (Finite (1080863910568919 / 2 ^ 53)) = Some w' \<and>
      videoMediatorStream w' = [[1], [1], [1]]) \<and>
   write_number (newWriter \<lparr>fps = 25\<rparr>) [1] PlusInfinity = None"
proof -
  let ?w = "newWriter \<lparr>fps = 25\<rparr>"
  let ?d = "1080863910568919 / 2 ^ 53 :: real"
  have o: "options ?w = \<lparr>fps = 25\<rparr>" "videoMediatorStream ?w = []" "fps (options ?w) = 25"
    by (simp_all add: newWriter_def)
  have "max \<lfloor>double_round (?d * 25)\<rfloor> 1 = (3 :: int)" by code_simp
  then have r: "max \<lfloor>double_round (?d * fps (options ?w))\<rfloor> 1 = (3 :: int)"
    by (simp only: o(3))
  have "NUMBER_OF_FPS \<lparr>fps = 25\<rparr> ?d = 3" by code_simp
  then have a: "NUMBER_OF_FPS (options ?w) ?d \<le> 2 ^ 53" by (simp only: o(1)) simp
  have p: "0 < fps (options ?w)" by (simp add: o(3))
  have e: "\<lfloor>?d * 25\<rfloor> = 2" by simp
  from write_number_repetitions [of ?w ?d "[1]"] a p
  obtain n where n: "write_number ?w [1] (Finite ?d) = Some (write_data ?w [1] ?d)"
      "videoMediatorStream (write_data ?w [1] ?d) = videoMediatorStream ?w @ replicate n [1]"
      "int n = max \<lfloor>double_round (?d * fps (options ?w))\<rfloor> 1"
    and i: "write_number ?w [1] PlusInfinity = None"
    by blast
  from n(3) have "int n = 3" by (simp only: r)
  then have "n = 3" by simp
  with n(2) have "videoMediatorStream (write_data ?w [1] ?d) = [[1], [1], [1]]"
    by (simp add: o numeral_3_eq_3)
  with n(1) a p e i show ?thesis by blast
qed

text \<open>
  Claim C2, as stated, fails: the product is rounded down, not to the nearest integer.
  With 2 frames per second and a duration of 7/8 second the chunk is written once,
  where \<open>max(1, round(7/8 * 2))\<close> is 2.
\<close>

theorem write_data_floor_not_round:
  "videoMediatorStream (write_data (newWriter \<lparr>fps = 2\<rparr>) [1] (7 / 8)) = [[1]] \<and>
   max 1 (round ((7 / 8 :: real) * 2)) = (2 :: int)"
proof -
  have "NUMBER_OF_FPS \<lparr>fps = 2\<rparr> (7 / 8) = 1" by code_simp
  then show ?thesis
    by (simp add: write_data_eq newWriter_def round_def)
qed

subsection \<open>The insertion point\<close>

lemma findSlot_loop_le: "findSlot_loop fs ts k \<le> k"
  by (induction k) auto

lemma findSlot_loop_takeWhile:
  assumes "sorted (map timestamp fs)" and "k \<le> length fs"
    and "\<And>i. k \<le> i \<Longrightarrow> i < length fs \<Longrightarrow> ts \<le> timestamp (fs ! i)"
  shows "findSlot_loop fs ts k = length (takeWhile (\<lambda>g. timestamp g < ts) fs)"
  using assms(2,3)
proof (induction k)
  case 0
  have "takeWhile (\<lambda>g. timestamp g < ts) fs = []"
  proof (cases fs)
    case Nil
    then show ?thesis by simp
  next
    case (Cons a as)
    with 0(2) [of 0] show ?thesis by simp
  qed
  then show ?case by simp
next
  case (Suc k)
  show ?case
  proof (cases "ts > timestamp (fs ! k)")
    case True
    have "takeWhile (\<lambda>g. timestamp g < ts) fs = take (Suc k) fs"
    proof (rule takeWhile_eq_take_P_nth)
      fix i assume "i < Suc k" "i < length fs"
      then have "timestamp (fs ! i) \<le> timestamp (fs ! k)"
        using assms(1) Suc.prems(1) sorted_nth_mono [of "map timestamp fs" i k] by simp
      with True show "timestamp (fs ! i) < ts" by simp
    next
      assume "Suc k < length fs"
      with Suc.prems(2) [of "Suc k"] show "\<not> timestamp (fs ! Suc k) < ts" by simp
    qed
    with True Suc.prems(1) show ?thesis by simp
  next
    case False
    have "findSlot_loop fs ts k = length (takeWhile (\<lambda>g. timestamp g < ts) fs)"
    proof (rule Suc.IH)
      show "k \<le> length fs" using Suc.prems(1) by simp
    next
      fix i assume "k \<le> i" "i < length fs"
      with False Suc.prems(2) [of i] show "ts \<le> timestamp (fs ! i)"
        by (cases "i = k") auto
    qed
    with False show ?thesis by simp
  qed
qed

lemma findSlot_takeWhile:
  "sorted (map timestamp (screenCastFrames w)) \<Longrightarrow>
   findSlot w ts = length (takeWhile (\<lambda>g. timestamp g < ts) (screenCastFrames w))"
  using findSlot_loop_takeWhile [of "screenCastFrames w" "length (screenCastFrames w)" ts]
  by (simp add: findSlot_def)

lemma findSlot_le: "findSlot w ts \<le> length (screenCastFrames w)"
  by (simp add: findSlot_def findSlot_loop_le)

lemma insort_key_takeWhile:
  "insort_key f x xs = takeWhile (\<lambda>y. f y < f x) xs @ x # dropWhile (\<lambda>y. f y < f x) xs"
  by (induction xs) auto

lemma placeFrame_buffer:
  "screenCastFrames (placeFrame w frame) =
     take (findSlot w (timestamp frame)) (screenCastFrames w) @ frame #
     drop (findSlot w (timestamp frame)) (screenCastFrames w)"
  by (simp add: placeFrame_def Let_def)

lemma placeFrame_other:
  "placeFrame w frame = w\<lparr>screenCastFrames := screenCastFrames (placeFrame w frame)\<rparr>"
  by (simp add: placeFrame_def Let_def)

lemma placeFrame_length:
  "length (screenCastFrames (placeFrame w frame)) = Suc (length (screenCastFrames w))"
  using findSlot_le [of w "timestamp frame"] by (simp add: placeFrame_buffer)

lemma placeFrame_insort:
  assumes "sorted (map timestamp (screenCastFrames w))"
  shows "screenCastFrames (placeFrame w frame) = insort_key timestamp frame (screenCastFrames w)"
proof -
  let ?P = "\<lambda>g. timestamp g < timestamp frame"
  have "findSlot w (timestamp frame) = length (takeWhile ?P (screenCastFrames w))"
    using assms by (rule findSlot_takeWhile)
  then show ?thesis
    by (simp add: placeFrame_buffer insort_key_takeWhile
        flip: takeWhile_eq_take dropWhile_eq_drop)
qed

subsection \<open>The half drain\<close>

lemma numberOfFramesToSplice_eq: "numberOfFramesToSplice = 20"
  by (simp add: numberOfFramesToSplice_def screenLimit_def)

lemma trimFrame_total:
  "\<exists>timed. trimFrame fl e = Inr timed \<and> length timed = length fl \<and>
     map blob timed = map blob fl \<and> map timestamp timed = map timestamp fl"
  by (auto simp: trimFrame_eq intro!: nth_equalityI)

lemma processFrameBeforeWrite_eq:
  "\<exists>timed. trimFrame frames e = Inr timed \<and>
     processFrameBeforeWrite w frames e =
       Inr (w\<lparr>status := (if frames = [] then status w else IN_PROGRESS),
              videoMediatorStream :=
                videoMediatorStream w @
                concat (map (\<lambda>f. replicate (nat (NUMBER_OF_FPS (options w) (duration f))) (blob f))
                         timed)\<rparr>)"
proof -
  obtain timed where t: "trimFrame frames e = Inr timed" "length timed = length frames"
    using trimFrame_total by blast
  then have "timed = [] \<longleftrightarrow> frames = []" by auto
  with t show ?thesis
    by (simp add: processFrameBeforeWrite_def fold_write_data_eq)
qed

lemma drainHalf_not_full:
  "length (screenCastFrames w) \<noteq> screenLimit \<Longrightarrow> drainHalf w = Inr w"
  by (simp add: drainHalf_def)

lemma drainHalf_full:
  assumes "length (screenCastFrames w) = screenLimit"
  shows "drainHalf w =
           processFrameBeforeWrite
             (w\<lparr>screenCastFrames := drop numberOfFramesToSplice (screenCastFrames w)\<rparr>)
             (take numberOfFramesToSplice (screenCastFrames w))
             (timestamp (screenCastFrames w ! numberOfFramesToSplice))"
  using assms
  by (simp add: drainHalf_def Let_def at_index_def numberOfFramesToSplice_eq screenLimit_def)

lemma processFrameBeforeWrite_fields:
  "\<exists>w'. processFrameBeforeWrite w frames e = Inr w' \<and>
     screenCastFrames w' = screenCastFrames w \<and> options w' = options w"
  using processFrameBeforeWrite_eq [of frames e w] by auto

lemma drainHalf_total:
  "\<exists>w'. drainHalf w = Inr w' \<and>
     screenCastFrames w' =
       (if length (screenCastFrames w) = screenLimit
        then drop numberOfFramesToSplice (screenCastFrames w) else screenCastFrames w) \<and>
     options w' = options w"
proof (cases "length (screenCastFrames w) = screenLimit")
  case True
  with processFrameBeforeWrite_fields
      [of "w\<lparr>screenCastFrames := drop numberOfFramesToSplice (screenCastFrames w)\<rparr>"
          "take numberOfFramesToSplice (screenCastFrames w)"
          "timestamp (screenCastFrames w ! numberOfFramesToSplice)"]
  show ?thesis by (auto simp: drainHalf_full)
next
  case False
  then show ?thesis by (simp add: drainHalf_not_full)
qed

lemma insert_frame_total:
  "\<exists>w'. insert_frame w frame = Inr w'"
  using drainHalf_total [of w] by (auto simp: insert_frame_def)

lemma insert_frame_invariant:
  assumes "insert_frame w frame = Inr w'"
  shows "sorted (map timestamp (screenCastFrames w)) \<Longrightarrow> sorted (map timestamp (screenCastFrames w'))"
    and "length (screenCastFrames w) \<le> screenLimit \<Longrightarrow> length (screenCastFrames w') \<le> screenLimit"
    and "options w' = options w"
proof -
  obtain w1 where w1: "drainHalf w = Inr w1"
      "screenCastFrames w1 =
       (if length (screenCastFrames w) = screenLimit
        then drop numberOfFramesToSplice (screenCastFrames w) else screenCastFrames w)"
      "options w1 = options w"
    using drainHalf_total by blast
  with assms have w': "w' = placeFrame w1 frame" by (simp add: insert_frame_def)
  {
    assume "sorted (map timestamp (screenCastFrames w))"
    then have "sorted (map timestamp (screenCastFrames w1))"
      using w1(2) sorted_wrt_drop [of "(\<le>)" "map timestamp (screenCastFrames w)" numberOfFramesToSplice]
      by (simp add: drop_map)
    then show "sorted (map timestamp (screenCastFrames w'))"
      by (simp add: w' placeFrame_insort sorted_insort_key)
  }
  {
    assume "length (screenCastFrames w) \<le> screenLimit"
    then show "length (screenCastFrames w') \<le> screenLimit"
      using w1(2)
      by (auto simp: w' placeFrame_length numberOfFramesToSplice_eq screenLimit_def)
  }
  show "options w' = options w"
    using w1(3) by (subst w', subst placeFrame_other) simp
qed

lemma inserts_invariant:
  assumes "sorted (map timestamp (screenCastFrames w))"
    and "length (screenCastFrames w) \<le> screenLimit"
  shows "\<exists>w'. inserts w frames = Inr w' \<and> sorted (map timestamp (screenCastFrames w')) \<and>
           length (screenCastFrames w') \<le> screenLimit \<and> options w' = options w"
  using assms
proof (induction frames arbitrary: w)
  case Nil
  then show ?case by simp
next
  case (Cons f fs)
  obtain w1 where w1: "insert_frame w f = Inr w1"
    using insert_frame_total by blast
  from insert_frame_invariant [OF w1] Cons.prems
  have "sorted (map timestamp (screenCastFrames w1))"
      "length (screenCastFrames w1) \<le> screenLimit" "options w1 = options w"
    by simp_all
  with Cons.IH [of w1] w1 show ?case by auto
qed

subsection \<open>Insertion\<close>

lemma timestamp_frame_no: "timestamp (frame_no n) = real n"
  by (simp add: frame_no_def)

lemma sorted_map_real_upt: "sorted (map real [m..<n])"
  by (simp only: sorted_map of_nat_le_iff sorted_upt)

lemma frames_1_to_40_length: "length frames_1_to_40 = screenLimit"
  by (simp only: frames_1_to_40_def screenLimit_def length_map length_upt)

lemma frames_1_to_40_timestamps: "map timestamp frames_1_to_40 = map real [1..<41]"
  by (simp only: frames_1_to_40_def map_map comp_def timestamp_frame_no)

lemma frames_1_to_40_sorted: "sorted (map timestamp frames_1_to_40)"
  by (simp only: frames_1_to_40_timestamps sorted_map_real_upt)





subsection \<open>Insertion into a full buffer\<close>

text \<open>
  Claim C7. When \<^verbatim>\<open>insert\<close> finds the buffer at its capacity of 40 frames, one half
  drain runs: the oldest \<open>floor(40 / 2) = 20\<close> frames are removed and written, each once
  with the duration computed against the timestamp of the new head of the buffer as
  batch end time, and nothing else is written; then the new frame is placed. A sorted
  buffer stays sorted and ends with 21 frames, below the capacity. Hence an insert
  into a buffer of at most 40 frames leaves at most 40 frames, and so does every
  sequence of inserts into a new writer.
\<close>

theorem insert_at_capacity_drains_half:
  "(length (screenCastFrames w) = screenLimit \<and> sorted (map timestamp (screenCastFrames w)) \<longrightarrow>
      (\<exists>w1 w' timed.
         numberOfFramesToSplice = screenLimit div 2 \<and>
         length (take numberOfFramesToSplice (screenCastFrames w)) = screenLimit div 2 \<and>
         drainHalf w = Inr w1 \<and>
         processFrameBeforeWrite
           (w\<lparr>screenCastFrames := drop numberOfFramesToSplice (screenCastFrames w)\<rparr>)
           (take numberOfFramesToSplice (screenCastFrames w))
           (timestamp (hd (drop numberOfFramesToSplice (screenCastFrames w)))) = Inr w1 \<and>
         trimFrame (take numberOfFramesToSplice (screenCastFrames w))
           (timestamp (hd (drop numberOfFramesToSplice (screenCastFrames w)))) = Inr timed \<and>
         insert_frame w frame = Inr w' \<and>
         videoMediatorStream w' =
           videoMediatorStream w @
           concat (map (\<lambda>f. replicate (nat (NUMBER_OF_FPS (options w) (duration f))) (blob f)) timed) \<and>
         screenCastFrames w' =
           insort_key timestamp frame (drop numberOfFramesToSplice (screenCastFrames w)) \<and>
         sorted (map timestamp (screenCastFrames w')) \<and>
         length (screenCastFrames w') = screenLimit - screenLimit div 2 + 1 \<and>
         length (screenCastFrames w') < screenLimit)) \<and>
   (length (screenCastFrames w) \<le> screenLimit \<longrightarrow>
      (\<exists>w'. insert_frame w frame = Inr w' \<and> length (screenCastFrames w') \<le> screenLimit)) \<and>
   (\<exists>w'. inserts (newWriter opts) frames = Inr w' \<and> length (screenCastFrames w') \<le> screenLimit)"
proof (intro conjI impI)
  assume h: "length (screenCastFrames w) = screenLimit \<and> sorted (map timestamp (screenCastFrames w))"
  let ?buf = "screenCastFrames w"
  let ?rest = "drop numberOfFramesToSplice ?buf"
  let ?old = "take numberOfFramesToSplice ?buf"
  let ?w0 = "w\<lparr>screenCastFrames := ?rest\<rparr>"
  from h have len: "length ?buf = 40" by (simp add: screenLimit_def)
  then have hd: "hd ?rest = ?buf ! numberOfFramesToSplice"
    by (simp add: hd_drop_conv_nth numberOfFramesToSplice_eq)
  obtain timed where t: "trimFrame ?old (timestamp (hd ?rest)) = Inr timed"
      "processFrameBeforeWrite ?w0 ?old (timestamp (hd ?rest)) =
         Inr (?w0\<lparr>status := (if ?old = [] then status ?w0 else IN_PROGRESS),
              videoMediatorStream :=
                videoMediatorStream ?w0 @
                concat (map (\<lambda>f. replicate (nat (NUMBER_OF_FPS (options ?w0) (duration f))) (blob f))
                         timed)\<rparr>)"
    using processFrameBeforeWrite_eq [of ?old "timestamp (hd ?rest)" ?w0] by blast
  define w1 where "w1 = ?w0\<lparr>status := (if ?old = [] then status ?w0 else IN_PROGRESS),
              videoMediatorStream :=
                videoMediatorStream ?w0 @
                concat (map (\<lambda>f. replicate (nat (NUMBER_OF_FPS (options ?w0) (duration f))) (blob f))
                         timed)\<rparr>"
  have p: "processFrameBeforeWrite ?w0 ?old (timestamp (hd ?rest)) = Inr w1"
    using t(2) by (simp only: w1_def)
  have d: "drainHalf w = Inr w1"
    using h p by (simp only: drainHalf_full hd)
  have b1: "screenCastFrames w1 = ?rest" and v1: "videoMediatorStream w1 =
      videoMediatorStream w @
      concat (map (\<lambda>f. replicate (nat (NUMBER_OF_FPS (options w) (duration f))) (blob f)) timed)"
    by (simp_all add: w1_def)
  have s1: "sorted (map timestamp (screenCastFrames w1))"
    using h sorted_wrt_drop [of "(\<le>)" "map timestamp ?buf" numberOfFramesToSplice]
    by (simp add: b1 drop_map)
  define w' where "w' = placeFrame w1 frame"
  have i: "insert_frame w frame = Inr w'"
    by (simp add: insert_frame_def d w'_def)
  have b': "screenCastFrames w' = insort_key timestamp frame ?rest"
    using s1 by (simp add: w'_def placeFrame_insort b1)
  have v': "videoMediatorStream w' = videoMediatorStream w1"
    by (subst w'_def, subst placeFrame_other) simp
  have s': "sorted (map timestamp (screenCastFrames w'))"
    using s1 by (simp add: b' sorted_insort_key b1)
  have l': "length (screenCastFrames w') = 21"
    using len by (simp add: w'_def placeFrame_length b1 numberOfFramesToSplice_eq)
  have n: "numberOfFramesToSplice = screenLimit div 2" "length ?old = screenLimit div 2"
    using len by (simp_all add: numberOfFramesToSplice_eq screenLimit_def)
  have l2: "length (screenCastFrames w') = screenLimit - screenLimit div 2 + 1"
      "length (screenCastFrames w') < screenLimit"
    using l' by (simp_all add: screenLimit_def)
  from n d p t(1) i v' v1 b' s' l2
  show "\<exists>w1 w' timed.
         numberOfFramesToSplice = screenLimit div 2 \<and>
         length (take numberOfFramesToSplice (screenCastFrames w)) = screenLimit div 2 \<and>
         drainHalf w = Inr w1 \<and>
         processFrameBeforeWrite
           (w\<lparr>screenCastFrames := drop numberOfFramesToSplice (screenCastFrames w)\<rparr>)
           (take numberOfFramesToSplice (screenCastFrames w))
           (timestamp (hd (drop numberOfFramesToSplice (screenCastFrames w)))) = Inr w1 \<and>
         trimFrame (take numberOfFramesToSplice (screenCastFrames w))
           (timestamp (hd (drop numberOfFramesToSplice (screenCastFrames w)))) = Inr timed \<and>
         insert_frame w frame = Inr w' \<and>
         videoMediatorStream w' =
           videoMediatorStream w @
           concat (map (\<lambda>f. replicate (nat (NUMBER_OF_FPS (options w) (duration f))) (blob f)) timed) \<and>
         screenCastFrames w' =
           insort_key timestamp frame (drop numberOfFramesToSplice (screenCastFrames w)) \<and>
         sorted (map timestamp (screenCastFrames w')) \<and>
         length (screenCastFrames w') = screenLimit - screenLimit div 2 + 1 \<and>
         length (screenCastFrames w') < screenLimit"
    by (intro exI [of _ w1] exI [of _ w'] exI [of _ timed]) (simp only: simp_thms)
next
  assume l: "length (screenCastFrames w) \<le> screenLimit"
  obtain w' where w': "insert_frame w frame = Inr w'"
    using insert_frame_total by blast
  from insert_frame_invariant(2) [OF w' l] w'
  show "\<exists>w'. insert_frame w frame = Inr w' \<and> length (screenCastFrames w') \<le> screenLimit"
    by blast
next
  have "sorted (map timestamp (screenCastFrames (newWriter opts)))"
    "length (screenCastFrames (newWriter opts)) \<le> screenLimit"
    by (simp_all add: newWriter_def)
  from inserts_invariant [OF this, of frames]
  show "\<exists>w'. inserts (newWriter opts) frames = Inr w' \<and> length (screenCastFrames w') \<le> screenLimit"
    by blast
qed

text \<open>
  The theorem at a buffer holding the frames with the timestamps 1 to 40 and a new
  frame with the timestamp 41.
\<close>

theorem insert_at_capacity_drains_half_witness:
  "length (screenCastFrames ((newWriter \<lparr>fps = 1\<rparr>)\<lparr>screenCastFrames := frames_1_to_40\<rparr>)) = screenLimit \<and>
   sorted (map timestamp (screenCastFrames ((newWriter \<lparr>fps = 1\<rparr>)\<lparr>screenCastFrames := frames_1_to_40\<rparr>))) \<and>
   (\<exists>w'. insert_frame ((newWriter \<lparr>fps = 1\<rparr>)\<lparr>screenCastFrames := frames_1_to_40\<rparr>) (frame_no 41) = Inr w' \<and>
      sorted (map timestamp (screenCastFrames w')) \<and> length (screenCastFrames w') < screenLimit)"
proof -
  let ?w = "(newWriter \<lparr>fps = 1\<rparr>)\<lparr>screenCastFrames := frames_1_to_40\<rparr>"
  have h: "length (screenCastFrames ?w) = screenLimit \<and> sorted (map timestamp (screenCastFrames ?w))"
    by (simp add: frames_1_to_40_length frames_1_to_40_sorted)
  with insert_at_capacity_drains_half [of ?w "frame_no 41" "\<lparr>fps = 1\<rparr>" "[]"]
  show ?thesis by blast
qed

text \<open>
  Claim C10. The capacity minus the number of spliced frames is at least 1: after the
  splice of a full buffer the first element of the remaining buffer exists (it is the
  frame that was at index 20), so neither the half drain nor \<^verbatim>\<open>insert\<close> ever reads
  the timestamp of an undefined element.
\<close>

theorem half_drain_new_head_defined:
  "1 \<le> screenLimit - numberOfFramesToSplice \<and>
   (length (screenCastFrames w) = screenLimit \<longrightarrow>
      length (drop numberOfFramesToSplice (screenCastFrames w)) = screenLimit - numberOfFramesToSplice \<and>
      at_index (drop numberOfFramesToSplice (screenCastFrames w)) 0 =
        Some (screenCastFrames w ! numberOfFramesToSplice)) \<and>
   (\<exists>w'. drainHalf w = Inr w') \<and>
   (\<exists>w'. insert_frame w frame = Inr w')"
proof (intro conjI impI)
  show "1 \<le> screenLimit - numberOfFramesToSplice"
    by (simp add: numberOfFramesToSplice_eq screenLimit_def)
next
  assume "length (screenCastFrames w) = screenLimit"
  then show "length (drop numberOfFramesToSplice (screenCastFrames w)) = screenLimit - numberOfFramesToSplice"
    "at_index (drop numberOfFramesToSplice (screenCastFrames w)) 0 =
        Some (screenCastFrames w ! numberOfFramesToSplice)"
    by (simp_all add: at_index_def numberOfFramesToSplice_eq screenLimit_def)
next
  show "\<exists>w'. drainHalf w = Inr w'" using drainHalf_total [of w] by blast
next
  show "\<exists>w'. insert_frame w frame = Inr w'" by (rule insert_frame_total)
qed

text \<open>The theorem at a buffer holding the frames with the timestamps 1 to 40.\<close>

theorem half_drain_new_head_defined_witness:
  "length (screenCastFrames ((newWriter \<lparr>fps = 1\<rparr>)\<lparr>screenCastFrames := frames_1_to_40\<rparr>)) = screenLimit \<and>
   at_index (drop numberOfFramesToSplice
       (screenCastFrames ((newWriter \<lparr>fps = 1\<rparr>)\<lparr>screenCastFrames := frames_1_to_40\<rparr>))) 0 =
     Some (frames_1_to_40 ! 20)"
proof -
  let ?w = "(newWriter \<lparr>fps = 1\<rparr>)\<lparr>screenCastFrames := frames_1_to_40\<rparr>"
  have h: "length (screenCastFrames ?w) = screenLimit"
    by (simp add: frames_1_to_40_length)
  with half_drain_new_head_defined [of ?w "frame_no 0"]
  show ?thesis by (simp add: numberOfFramesToSplice_eq)
qed

subsection \<open>Stopping\<close>

lemma drainFrames_eq:
  "\<exists>timed. trimFrame (screenCastFrames w) t = Inr timed \<and>
     drainFrames w t =
       Inr (w\<lparr>status := (if screenCastFrames w = [] then status w else IN_PROGRESS),
              videoMediatorStream :=
                videoMediatorStream w @
                concat (map (\<lambda>f. replicate (nat (NUMBER_OF_FPS (options w) (duration f))) (blob f))
                         timed),
              screenCastFrames := []\<rparr>)"
  using processFrameBeforeWrite_eq [of "screenCastFrames w" t w]
  by (auto simp: drainFrames_def)

lemma stop_completed: "status w = COMPLETED \<Longrightarrow> stop w t = Inr (writerPromise w, w)"
  by (simp add: stop_def)

lemma stop_first:
  assumes "status w \<noteq> COMPLETED"
  shows "\<exists>timed. trimFrame (screenCastFrames w) t = Inr timed \<and>
     stop w t =
       Inr (writerPromise w,
            w\<lparr>status := COMPLETED,
              videoMediatorStream :=
                videoMediatorStream w @
                concat (map (\<lambda>f. replicate (nat (NUMBER_OF_FPS (options w) (duration f))) (blob f))
                         timed),
              screenCastFrames := [],
              endCalls := endCalls w + 1\<rparr>)"
proof -
  obtain timed where t: "trimFrame (screenCastFrames w) t = Inr timed"
    "drainFrames w t =
       Inr (w\<lparr>status := (if screenCastFrames w = [] then status w else IN_PROGRESS),
              videoMediatorStream :=
                videoMediatorStream w @
                concat (map (\<lambda>f. replicate (nat (NUMBER_OF_FPS (options w) (duration f))) (blob f))
                         timed),
              screenCastFrames := []\<rparr>)"
    using drainFrames_eq by blast
  with assms show ?thesis by (simp add: stop_def)
qed

lemma stop_total:
  "\<exists>w'. stop w t = Inr (writerPromise w, w') \<and> status w' = COMPLETED \<and>
     writerPromise w' = writerPromise w"
proof (cases "status w = COMPLETED")
  case True
  then show ?thesis by (simp add: stop_completed)
next
  case False
  from stop_first [OF this, of t] show ?thesis by auto
qed

text \<open>
  Claim C8. A call of \<^verbatim>\<open>stop\<close> on a writer that is not completed drains the buffer,
  ends the stream once and completes the writer. Every call of \<^verbatim>\<open>stop\<close> after a call
  that has returned gives the same promise and leaves the writer as it is: nothing more is
  written and the stream is not ended again. The first call of the recorder's
  \<^verbatim>\<open>stop\<close> (memo not set) stops the collector, calls the writer's \<^verbatim>\<open>stop\<close> once, and
  returns and memoizes the value of the writer's promise: the value it had settled to,
  or the one the encoder settles it with. Every call of the recorder's \<^verbatim>\<open>stop\<close> after
  a call that has returned gives the same result and changes nothing, in the writer
  either, whatever the encoder reports later.
\<close>

theorem stop_idempotent:
  "(status w \<noteq> COMPLETED \<longrightarrow>
      (\<exists>promise w1. stop w t1 = Inr (promise, w1) \<and> promise = writerPromise w \<and>
         screenCastFrames w1 = [] \<and> endCalls w1 = endCalls w + 1 \<and> status w1 = COMPLETED)) \<and>
   (\<forall>promise w1. stop w t1 = Inr (promise, w1) \<longrightarrow> stop w1 t2 = Inr (promise, w1)) \<and>
   (isScreenCaptureEnded r = None \<longrightarrow>
      (\<exists>promise w1 result r1.
         stop (streamWriter r) t1 = Inr (promise, w1) \<and>
         recorder_stop r t1 outcome1 = Inr (result, r1) \<and>
         result = (case promise of Some b \<Rightarrow> b | None \<Rightarrow> outcome1) \<and>
         isScreenCaptureEnded r1 = Some result \<and>
         isStreamingEnded (streamReader r1) \<and>
         streamWriter r1 = w1\<lparr>writerPromise := Some result\<rparr> \<and>
         status (streamWriter r1) = COMPLETED)) \<and>
   (\<forall>result r1. recorder_stop r t1 outcome1 = Inr (result, r1) \<longrightarrow>
      recorder_stop r1 t2 outcome2 = Inr (result, r1))"
proof (intro conjI allI impI)
  assume "status w \<noteq> COMPLETED"
  from stop_first [OF this, of t1]
  show "\<exists>promise w1. stop w t1 = Inr (promise, w1) \<and> promise = writerPromise w \<and>
         screenCastFrames w1 = [] \<and> endCalls w1 = endCalls w + 1 \<and> status w1 = COMPLETED"
    by auto
next
  fix promise w1 assume h: "stop w t1 = Inr (promise, w1)"
  obtain w' where w': "stop w t1 = Inr (writerPromise w, w')" "status w' = COMPLETED"
      "writerPromise w' = writerPromise w"
    using stop_total by blast
  with h have "w1 = w'" "promise = writerPromise w1" by simp_all
  with w'(2) show "stop w1 t2 = Inr (promise, w1)" by (simp add: stop_completed)
next
  assume n: "isScreenCaptureEnded r = None"
  let ?r1 = "r\<lparr>streamReader := snd (collector_stop (streamReader r))\<rparr>"
  obtain w1 where w1: "stop (streamWriter r) t1 = Inr (writerPromise (streamWriter r), w1)"
      "status w1 = COMPLETED" "writerPromise w1 = writerPromise (streamWriter r)"
    using stop_total by blast
  have c: "isStreamingEnded (snd (collector_stop (streamReader r)))"
    by (simp add: collector_stop_def)
  show "\<exists>promise w1 result r1.
         stop (streamWriter r) t1 = Inr (promise, w1) \<and>
         recorder_stop r t1 outcome1 = Inr (result, r1) \<and>
         result = (case promise of Some b \<Rightarrow> b | None \<Rightarrow> outcome1) \<and>
         isScreenCaptureEnded r1 = Some result \<and>
         isStreamingEnded (streamReader r1) \<and>
         streamWriter r1 = w1\<lparr>writerPromise := Some result\<rparr> \<and>
         status (streamWriter r1) = COMPLETED"
  proof (cases "writerPromise (streamWriter r)")
    case None
    let ?r2 = "?r1\<lparr>streamWriter := resolve outcome1 w1, isScreenCaptureEnded := Some outcome1\<rparr>"
    have "recorder_stop r t1 outcome1 = Inr (outcome1, ?r2)"
      using n w1(1) None by (simp add: recorder_stop_def)
    moreover have "resolve outcome1 w1 = w1\<lparr>writerPromise := Some outcome1\<rparr>"
      using w1(3) None by (simp add: resolve_def)
    ultimately show ?thesis
      using w1 None c
      by (intro exI [of _ "None"] exI [of _ w1] exI [of _ outcome1] exI [of _ ?r2]) simp
  next
    case (Some b)
    let ?r2 = "?r1\<lparr>streamWriter := w1, isScreenCaptureEnded := Some b\<rparr>"
    have "recorder_stop r t1 outcome1 = Inr (b, ?r2)"
      using n w1(1) Some by (simp add: recorder_stop_def)
    moreover have "w1 = w1\<lparr>writerPromise := Some b\<rparr>"
      using w1(3) Some by simp
    ultimately show ?thesis
      using w1 Some c
      by (intro exI [of _ "Some b"] exI [of _ w1] exI [of _ b] exI [of _ ?r2]) simp
  qed
next
  fix result r1 assume h: "recorder_stop r t1 outcome1 = Inr (result, r1)"
  have "isScreenCaptureEnded r1 = Some result"
  proof (cases "isScreenCaptureEnded r")
    case (Some b)
    with h show ?thesis by (simp add: recorder_stop_def)
  next
    case None
    let ?r1 = "r\<lparr>streamReader := snd (collector_stop (streamReader r))\<rparr>"
    obtain w' where w': "stop (streamWriter ?r1) t1 = Inr (writerPromise (streamWriter ?r1), w')"
      using stop_total by blast
    with h None show ?thesis
      by (cases "writerPromise (streamWriter ?r1)") (auto simp: recorder_stop_def Let_def)
  qed
  then show "recorder_stop r1 t2 outcome2 = Inr (result, r1)"
    by (simp add: recorder_stop_def)
qed

text \<open>
  The theorem at a new writer holding one frame, stopped at the times 2 and 3, and at a
  new recorder with this writer, whose promise is pending: the encoder ends with success
  after the first call; the second call returns the same result even if an error is
  reported then.
\<close>

theorem stop_idempotent_witness:
  "status ((newWriter \<lparr>fps = 1\<rparr>)\<lparr>screenCastFrames := [frame_no 1]\<rparr>) \<noteq> COMPLETED \<and>
   stop ((newWriter \<lparr>fps = 1\<rparr>)\<lparr>screenCastFrames := [frame_no 1]\<rparr>) 2 =
     Inr (None, (newWriter \<lparr>fps = 1\<rparr>)
                  \<lparr>status := COMPLETED, videoMediatorStream := [[1]], endCalls := 1\<rparr>) \<and>
   stop ((newWriter \<lparr>fps = 1\<rparr>)
           \<lparr>status := COMPLETED, videoMediatorStream := [[1]], endCalls := 1\<rparr>) 3 =
     Inr (None, (newWriter \<lparr>fps = 1\<rparr>)
                  \<lparr>status := COMPLETED, videoMediatorStream := [[1]], endCalls := 1\<rparr>) \<and>
   isScreenCaptureEnded
     \<lparr>streamReader = \<lparr>isStreamingEnded = False, detachRounds = 0\<rparr>,
      streamWriter = (newWriter \<lparr>fps = 1\<rparr>)\<lparr>screenCastFrames := [frame_no 1]\<rparr>,
      isScreenCaptureEnded = None\<rparr> = None \<and>
   recorder_stop
     \<lparr>streamReader = \<lparr>isStreamingEnded = False, detachRounds = 0\<rparr>,
      streamWriter = (newWriter \<lparr>fps = 1\<rparr>)\<lparr>screenCastFrames := [frame_no 1]\<rparr>,
      isScreenCaptureEnded = None\<rparr> 2 True =
     Inr (True,
          \<lparr>streamReader = \<lparr>isStreamingEnded = True, detachRounds = 1\<rparr>,
           streamWriter = (newWriter \<lparr>fps = 1\<rparr>)
             \<lparr>status := COMPLETED, videoMediatorStream := [[1]], endCalls := 1,
               writerPromise := Some True\<rparr>,
           isScreenCaptureEnded = Some True\<rparr>) \<and>
   recorder_stop
     \<lparr>streamReader = \<lparr>isStreamingEnded = True, detachRounds = 1\<rparr>,
      streamWriter = (newWriter \<lparr>fps = 1\<rparr>)
        \<lparr>status := COMPLETED, videoMediatorStream := [[1]], endCalls := 1,
          writerPromise := Some True\<rparr>,
      isScreenCaptureEnded = Some True\<rparr> 3 False =
     Inr (True,
          \<lparr>streamReader = \<lparr>isStreamingEnded = True, detachRounds = 1\<rparr>,
           streamWriter = (newWriter \<lparr>fps = 1\<rparr>)
             \<lparr>status := COMPLETED, videoMediatorStream := [[1]], endCalls := 1,
               writerPromise := Some True\<rparr>,
           isScreenCaptureEnded = Some True\<rparr>)"
proof -
  let ?w = "(newWriter \<lparr>fps = 1\<rparr>)\<lparr>screenCastFrames := [frame_no 1]\<rparr>"
  let ?w1 = "(newWriter \<lparr>fps = 1\<rparr>)\<lparr>status := COMPLETED, videoMediatorStream := [[1]], endCalls := 1\<rparr>"
  let ?r = "\<lparr>streamReader = \<lparr>isStreamingEnded = False, detachRounds = 0\<rparr>,
      streamWriter = ?w, isScreenCaptureEnded = None\<rparr>"
  let ?r1 = "\<lparr>streamReader = \<lparr>isStreamingEnded = True, detachRounds = 1\<rparr>,
      streamWriter = ?w1\<lparr>writerPromise := Some True\<rparr>,
      isScreenCaptureEnded = Some True\<rparr>"
  have one: "double_round 1 = 1" by code_simp
  have a: "status ?w \<noteq> COMPLETED" by (simp add: newWriter_def)
  have b: "stop ?w 2 = Inr (None, ?w1)"
    by (simp add: stop_def drainFrames_def processFrameBeforeWrite_def trimFrame_def
        trimFrame_callback_def at_index_def write_data_eq NUMBER_OF_FPS_def times_double_def
        one newWriter_def frame_no_def)
  have m: "isScreenCaptureEnded ?r = None" by simp
  have c: "recorder_stop ?r 2 True = Inr (True, ?r1)"
    using b by (simp add: recorder_stop_def collector_stop_def resolve_def) (simp add: newWriter_def)
  from stop_idempotent [of ?w 2 3 ?r True False]
  have i: "\<forall>promise w1. stop ?w 2 = Inr (promise, w1) \<longrightarrow> stop w1 3 = Inr (promise, w1)"
    and j: "\<forall>result r1. recorder_stop ?r 2 True = Inr (result, r1) \<longrightarrow>
              recorder_stop r1 3 False = Inr (result, r1)"
    by blast+
  from i b have d: "stop ?w1 3 = Inr (None, ?w1)" by blast
  from j c have e: "recorder_stop ?r1 3 False = Inr (True, ?r1)" by blast
  from a b d m c e show ?thesis by blast
qed

subsection \<open>Errors of the encoder\<close>

lemma resolve_fields:
  "emitted (resolve v w) = emitted w"
  "consoleErrors (resolve v w) = consoleErrors w"
  "writableErrors (resolve v w) = writableErrors w"
  "status (resolve v w) = status w"
  by (simp_all add: resolve_def split: option.split)

text \<open>
  Claim C9, as stated, fails: after a stop (status COMPLETED) the encoder's error
  \<^verbatim>\<open>pipe:0: End of file\<close> still raises \<^verbatim>\<open>videoStreamWriterError\<close>; only the line on the
  console is left out.
\<close>

theorem end_of_file_after_stop_is_emitted:
  "handleWriteStreamError ((newWriter \<lparr>fps = 25\<rparr>)\<lparr>status := COMPLETED\<rparr>) ''pipe:0: End of file'' =
     (newWriter \<lparr>fps = 25\<rparr>)
       \<lparr>status := COMPLETED, emitted := [(''videoStreamWriterError'', ''pipe:0: End of file'')]\<rparr>"
  by (simp add: handleWriteStreamError_def newWriter_def)

text \<open>
  Claim C9, amended. \<^verbatim>\<open>_handleWriteStreamError\<close> raises \<^verbatim>\<open>videoStreamWriterError\<close> with
  the message for every error, whatever the status and the message; what the status and
  the message decide is the line on the console, which is left out exactly when the status
  is not IN_PROGRESS and the message contains \<^verbatim>\<open>pipe:0: End of file\<close>. The encoder's
  errors reach this method when the destination is a file; when it is a writable stream
  the error is passed to that stream and the signal is not raised.
\<close>

theorem stream_error_signal:
  "emitted (handleWriteStreamError w message) =
     emitted w @ [(''videoStreamWriterError'', message)] \<and>
   consoleErrors (handleWriteStreamError w message) =
     (if status w \<noteq> IN_PROGRESS \<and> includes_str message ''pipe:0: End of file''
      then consoleErrors w
      else consoleErrors w @ [''Error unable to capture video stream: '' @ message]) \<and>
   emitted (onErrorVideoFile w message) = emitted w @ [(''videoStreamWriterError'', message)] \<and>
   emitted (onErrorVideoWritableStream w message) = emitted w \<and>
   writableErrors (onErrorVideoWritableStream w message) = writableErrors w @ [message]"
  by (simp add: handleWriteStreamError_def Let_def onErrorVideoFile_def
      onErrorVideoWritableStream_def resolve_fields)

subsection \<open>Sequences of inserts\<close>

lemma insert_frame_not_full:
  assumes "sorted (map timestamp (screenCastFrames w))"
    and "length (screenCastFrames w) \<noteq> screenLimit"
  shows "insert_frame w frame =
           Inr (w\<lparr>screenCastFrames := insort_key timestamp frame (screenCastFrames w)\<rparr>)"
proof -
  have "placeFrame w frame = w\<lparr>screenCastFrames := insort_key timestamp frame (screenCastFrames w)\<rparr>"
    using placeFrame_other [of w frame] assms(1) by (simp add: placeFrame_insort)
  with assms(2) show ?thesis by (simp add: insert_frame_def drainHalf_not_full)
qed

lemma inserts_no_drain:
  assumes "sorted (map timestamp (screenCastFrames w))"
    and "length (screenCastFrames w) + length frames \<le> screenLimit"
  shows "inserts w frames =
           Inr (w\<lparr>screenCastFrames :=
                    foldl (\<lambda>b f. insort_key timestamp f b) (screenCastFrames w) frames\<rparr>)"
  using assms
proof (induction frames arbitrary: w)
  case Nil
  then show ?case by simp
next
  case (Cons f fs)
  let ?w1 = "w\<lparr>screenCastFrames := insort_key timestamp f (screenCastFrames w)\<rparr>"
  from Cons.prems have "length (screenCastFrames w) \<noteq> screenLimit" by simp
  with Cons.prems(1) have i: "insert_frame w f = Inr ?w1" by (rule insert_frame_not_full)
  have "sorted (map timestamp (screenCastFrames ?w1))"
    using Cons.prems(1) by (simp add: sorted_insort_key)
  moreover have "length (screenCastFrames ?w1) + length fs \<le> screenLimit"
    using Cons.prems(2) by simp
  ultimately have "inserts ?w1 fs =
      Inr (?w1\<lparr>screenCastFrames :=
                 foldl (\<lambda>b f. insort_key timestamp f b) (screenCastFrames ?w1) fs\<rparr>)"
    by (rule Cons.IH)
  with i show ?case by simp
qed

lemma foldl_insort_key: "foldl (\<lambda>b f. insort_key k f b) [] xs = sort_key k (rev xs)"
  by (simp add: sort_key_def foldl_conv_foldr)

lemma filter_same_key:
  "distinct (map k zs) \<Longrightarrow> y \<in> set zs \<Longrightarrow> filter (\<lambda>x. k y = k x) zs = [y]"
proof (induction zs)
  case Nil
  then show ?case by simp
next
  case (Cons z zs)
  show ?case
  proof (cases "y = z")
    case True
    have "filter (\<lambda>x. k z = k x) zs = []"
      using Cons.prems(1) by (auto simp: filter_empty_conv)
    with True show ?thesis by simp
  next
    case False
    with Cons.prems have y: "y \<in> set zs" by auto
    then have "k y \<in> k ` set zs" by simp
    with Cons.prems(1) have "k y \<noteq> k z" by auto
    with y Cons show ?thesis by simp
  qed
qed

lemma sort_key_rev_distinct:
  assumes "distinct (map k xs)"
  shows "sort_key k (rev xs) = sort_key k xs"
proof (rule sym, rule properties_for_sort_key)
  show "mset (sort_key k (rev xs)) = mset xs" by simp
next
  show "sorted (map k (sort_key k (rev xs)))" by simp
next
  fix y assume y: "y \<in> set (sort_key k (rev xs))"
  have "mset (map k (sort_key k (rev xs))) = mset (map k xs)" by simp
  with assms have "distinct (map k (sort_key k (rev xs)))"
    using mset_eq_imp_distinct_iff by blast
  with y have "filter (\<lambda>x. k y = k x) (sort_key k (rev xs)) = [y]"
    by (rule filter_same_key [rotated])
  moreover from y have "y \<in> set xs" by simp
  with assms have "filter (\<lambda>x. k y = k x) xs = [y]" by (rule filter_same_key)
  ultimately show "filter (\<lambda>x. k y = k x) (sort_key k (rev xs)) = filter (\<lambda>x. k y = k x) xs"
    by simp
qed

lemma inserts_newWriter_few:
  assumes "length frames \<le> screenLimit"
  shows "inserts (newWriter opts) frames =
           Inr ((newWriter opts)\<lparr>screenCastFrames := sort_key timestamp (rev frames)\<rparr>)"
proof -
  have b: "screenCastFrames (newWriter opts) = []" by (simp add: newWriter_def)
  with inserts_no_drain [of "newWriter opts" frames] assms show ?thesis
    by (simp add: foldl_insort_key)
qed

text \<open>
  Claim C5, amended. After every sequence of \<^verbatim>\<open>insert\<close> calls on a new writer the
  buffer is sorted by timestamp. When the frames are at most 40, so that no half drain
  has removed any, the buffer holds all of them, stably sorted from the last arrival to
  the first; when moreover their timestamps are pairwise distinct, the buffer is the
  list of the frames in the order of their timestamps, whatever the order of arrival,
  and a drain hands them to the encoder in that order.
\<close>

theorem buffer_sorted_after_inserts:
  "\<exists>w. inserts (newWriter opts) frames = Inr w \<and>
     sorted (map timestamp (screenCastFrames w)) \<and>
     (length frames \<le> screenLimit \<longrightarrow>
        screenCastFrames w = sort_key timestamp (rev frames) \<and>
        mset (screenCastFrames w) = mset frames \<and>
        (distinct (map timestamp frames) \<longrightarrow>
           screenCastFrames w = sort_key timestamp frames \<and>
           (\<exists>timed. trimFrame (screenCastFrames w) stoppedTime = Inr timed \<and>
              map timestamp timed = map timestamp (sort_key timestamp frames) \<and>
              map blob timed = map blob (sort_key timestamp frames))))"
proof -
  have "sorted (map timestamp (screenCastFrames (newWriter opts)))"
    "length (screenCastFrames (newWriter opts)) \<le> screenLimit"
    by (simp_all add: newWriter_def)
  from inserts_invariant [OF this, of frames]
  obtain w where w: "inserts (newWriter opts) frames = Inr w"
      "sorted (map timestamp (screenCastFrames w))"
    by blast
  have few: "screenCastFrames w = sort_key timestamp (rev frames)"
    if "length frames \<le> screenLimit"
    using inserts_newWriter_few [OF that, of opts] w(1) by simp
  have dist: "screenCastFrames w = sort_key timestamp frames"
    if "length frames \<le> screenLimit" "distinct (map timestamp frames)"
    using few [OF that(1)] sort_key_rev_distinct [OF that(2)] by simp
  have drain: "\<exists>timed. trimFrame (screenCastFrames w) stoppedTime = Inr timed \<and>
              map timestamp timed = map timestamp (sort_key timestamp frames) \<and>
              map blob timed = map blob (sort_key timestamp frames)"
    if "length frames \<le> screenLimit" "distinct (map timestamp frames)"
    using trimFrame_total [of "screenCastFrames w" stoppedTime] dist [OF that] by auto
  from w few dist drain show ?thesis
    by (intro exI [of _ w]) simp
qed

text \<open>
  The amended theorem at the three frames with the timestamps 3, 1, 2, arriving in this
  order.
\<close>

theorem buffer_sorted_after_inserts_witness:
  "length [frame_no 3, frame_no 1, frame_no 2] \<le> screenLimit \<and>
   distinct (map timestamp [frame_no 3, frame_no 1, frame_no 2]) \<and>
   (\<exists>w. inserts (newWriter \<lparr>fps = 25\<rparr>) [frame_no 3, frame_no 1, frame_no 2] = Inr w \<and>
      screenCastFrames w = [frame_no 1, frame_no 2, frame_no 3])"
proof -
  let ?fs = "[frame_no 3, frame_no 1, frame_no 2]"
  have a: "length ?fs \<le> screenLimit" by (simp add: screenLimit_def)
  have b: "distinct (map timestamp ?fs)" by (simp add: frame_no_def)
  have c: "sort_key timestamp ?fs = [frame_no 1, frame_no 2, frame_no 3]"
    by (simp add: frame_no_def)
  from buffer_sorted_after_inserts [of "\<lparr>fps = 25\<rparr>" ?fs 4] a b
  obtain w where "inserts (newWriter \<lparr>fps = 25\<rparr>) ?fs = Inr w"
    "screenCastFrames w = sort_key timestamp ?fs"
    by blast
  with a b c show ?thesis by simp
qed

lemma late_arrival_distinct: "distinct (map timestamp late_arrival)"
proof -
  have "map timestamp late_arrival = map real ([1..<41] @ [0])"
    by (simp only: late_arrival_def frames_1_to_40_def map_append map_map comp_def
        timestamp_frame_no list.map)
  moreover have "distinct (map real ([1..<41] @ [0]))"
    by (auto simp: distinct_map)
  ultimately show ?thesis by simp
qed

lemma late_arrival_inserted:
  "inserts (newWriter \<lparr>fps = 1\<rparr>) late_arrival =
     Inr ((newWriter \<lparr>fps = 1\<rparr>)
            \<lparr>screenCastFrames := frame_no 0 # map frame_no [21..<41], status := IN_PROGRESS,
              videoMediatorStream := map (\<lambda>n. [n]) [1..<21]\<rparr>)"
  by code_simp

text \<open>
  Claim C5, as stated, fails for more than 40 frames. The frames with the timestamps 1
  to 40 arrive, then the frame with the timestamp 0 (all timestamps distinct): the buffer
  then holds the timestamps 0, 21, ..., 40, not the 41 frames, and the frames 1 to 20
  have already been drained and written ahead of the frame 0, which is still in the
  buffer. (The image of the frame with timestamp \<open>n\<close> is the single byte \<open>n\<close>.)
\<close>

theorem late_frame_behind_drained_frames:
  "distinct (map timestamp late_arrival) \<and>
   map_sum id (map timestamp \<circ> screenCastFrames) (inserts (newWriter \<lparr>fps = 1\<rparr>) late_arrival) =
     Inr (0 # map real [21..<41]) \<and>
   map_sum id (map hd \<circ> videoMediatorStream) (inserts (newWriter \<lparr>fps = 1\<rparr>) late_arrival) =
     Inr [1..<21]"
  by (simp add: late_arrival_distinct late_arrival_inserted comp_def timestamp_frame_no)

subsection \<open>The order of the written frames\<close>

lemma sorted_append_insort_key:
  assumes "sorted (map k (d @ b))" and "\<forall>x \<in> set d. k x \<le> k f"
  shows "sorted (map k (d @ insort_key k f b))"
  using assms by (auto simp: sorted_append sorted_insort_key set_insort_key)

lemma concat_map2_append:
  "length r1 = length d1 \<Longrightarrow>
   concat (map2 g (r1 @ r2) (d1 @ d2)) = concat (map2 g r1 d1) @ concat (map2 g r2 d2)"
  by simp

lemma concat_timed_blobs:
  assumes "length timed = length batch" and "map blob timed = map blob batch"
  shows "concat (map (\<lambda>t. replicate (n t) (blob t)) timed) =
         concat (map2 (\<lambda>m f. replicate m (blob f)) (map n timed) batch)"
  using assms by (induction timed batch rule: list_induct2) auto

lemma processFrameBeforeWrite_written:
  "\<exists>reps. length reps = length frames \<and> (\<forall>n \<in> set reps. 1 \<le> n) \<and>
     processFrameBeforeWrite w frames e =
       Inr (w\<lparr>status := (if frames = [] then status w else IN_PROGRESS),
              videoMediatorStream :=
                videoMediatorStream w @
                concat (map2 (\<lambda>n f. replicate n (blob f)) reps frames)\<rparr>)"
proof -
  obtain timed where t: "trimFrame frames e = Inr timed" "length timed = length frames"
      "map blob timed = map blob frames"
    using trimFrame_total by blast
  let ?n = "\<lambda>t. nat (NUMBER_OF_FPS (options w) (duration t))"
  from processFrameBeforeWrite_eq [of frames e w] t(1)
  have p: "processFrameBeforeWrite w frames e =
       Inr (w\<lparr>status := (if frames = [] then status w else IN_PROGRESS),
              videoMediatorStream :=
                videoMediatorStream w @ concat (map (\<lambda>t. replicate (?n t) (blob t)) timed)\<rparr>)"
    by auto
  have "1 \<le> ?n t" for t :: TimedFrame
    using NUMBER_OF_FPS_pos [of "options w" "duration t"] by linarith
  then have "\<forall>n \<in> set (map ?n timed). 1 \<le> n" by simp
  moreover have "length (map ?n timed) = length frames" using t(2) by simp
  moreover have "concat (map (\<lambda>t. replicate (?n t) (blob t)) timed) =
      concat (map2 (\<lambda>m f. replicate m (blob f)) (map ?n timed) frames)"
    using t(2,3) by (rule concat_timed_blobs)
  ultimately show ?thesis using p by (intro exI [of _ "map ?n timed"]) simp
qed

lemma framesToProcess_drop:
  "framesToProcess w @ drop (length (framesToProcess w)) (screenCastFrames w) = screenCastFrames w"
  by (simp add: framesToProcess_def numberOfFramesToSplice_eq screenLimit_def)

lemma insert_frame_written:
  assumes s: "sorted (map timestamp (screenCastFrames w))"
    and c: "status w \<noteq> COMPLETED"
  shows "\<exists>w' reps. insert_frame w frame = Inr w' \<and>
           length reps = length (framesToProcess w) \<and> (\<forall>n \<in> set reps. 1 \<le> n) \<and>
           videoMediatorStream w' =
             videoMediatorStream w @
             concat (map2 (\<lambda>n f. replicate n (blob f)) reps (framesToProcess w)) \<and>
           screenCastFrames w' =
             insort_key timestamp frame
               (drop (length (framesToProcess w)) (screenCastFrames w)) \<and>
           status w' \<noteq> COMPLETED \<and> options w' = options w"
proof (cases "length (screenCastFrames w) = screenLimit")
  case False
  let ?w' = "w\<lparr>screenCastFrames := insort_key timestamp frame (screenCastFrames w)\<rparr>"
  have i: "insert_frame w frame = Inr ?w'" using s False by (rule insert_frame_not_full)
  have e: "framesToProcess w = []" using False by (simp add: framesToProcess_def)
  show ?thesis
  proof (intro exI conjI)
    show "insert_frame w frame = Inr ?w'" by (rule i)
    show "length ([] :: nat list) = length (framesToProcess w)" by (simp add: e)
    show "\<forall>n \<in> set ([] :: nat list). 1 \<le> n" by simp
    show "videoMediatorStream ?w' =
        videoMediatorStream w @ concat (map2 (\<lambda>n f. replicate n (blob f)) [] (framesToProcess w))"
      by simp
    show "screenCastFrames ?w' =
        insort_key timestamp frame (drop (length (framesToProcess w)) (screenCastFrames w))"
      by (simp add: e)
    show "status ?w' \<noteq> COMPLETED" using c by simp
    show "options ?w' = options w" by simp
  qed
next
  case True
  let ?buf = "screenCastFrames w"
  let ?old = "take numberOfFramesToSplice ?buf"
  let ?rest = "drop numberOfFramesToSplice ?buf"
  let ?w0 = "w\<lparr>screenCastFrames := ?rest\<rparr>"
  have e: "framesToProcess w = ?old" using True by (simp add: framesToProcess_def)
  have le: "length ?old = numberOfFramesToSplice"
    using True by (simp add: numberOfFramesToSplice_eq screenLimit_def)
  obtain reps where r: "length reps = length ?old" "\<forall>n \<in> set reps. 1 \<le> n"
      "processFrameBeforeWrite ?w0 ?old (timestamp (?buf ! numberOfFramesToSplice)) =
       Inr (?w0\<lparr>status := (if ?old = [] then status ?w0 else IN_PROGRESS),
              videoMediatorStream :=
                videoMediatorStream ?w0 @
                concat (map2 (\<lambda>n f. replicate n (blob f)) reps ?old)\<rparr>)"
    using processFrameBeforeWrite_written
      [of ?old ?w0 "timestamp (?buf ! numberOfFramesToSplice)"] by blast
  define w1 where "w1 = ?w0\<lparr>status := (if ?old = [] then status ?w0 else IN_PROGRESS),
              videoMediatorStream :=
                videoMediatorStream ?w0 @
                concat (map2 (\<lambda>n f. replicate n (blob f)) reps ?old)\<rparr>"
  have dh: "drainHalf w = Inr w1"
    using r(3) by (simp only: drainHalf_full [OF True] w1_def)
  have b1: "screenCastFrames w1 = ?rest" and o1: "options w1 = options w"
    and c1: "status w1 \<noteq> COMPLETED"
    and v1: "videoMediatorStream w1 =
        videoMediatorStream w @ concat (map2 (\<lambda>n f. replicate n (blob f)) reps ?old)"
    using c by (simp_all add: w1_def)
  have sr: "sorted (map timestamp (screenCastFrames w1))"
    using s sorted_wrt_drop [of "(\<le>)" "map timestamp ?buf" numberOfFramesToSplice]
    by (simp add: b1 drop_map)
  define w' where "w' = placeFrame w1 frame"
  have i: "insert_frame w frame = Inr w'" by (simp add: insert_frame_def dh w'_def)
  have b': "screenCastFrames w' = insort_key timestamp frame ?rest"
    using sr by (simp add: w'_def placeFrame_insort b1)
  have other: "videoMediatorStream w' = videoMediatorStream w1" "status w' = status w1"
      "options w' = options w1"
    by (subst w'_def, subst placeFrame_other, simp)+
  show ?thesis
  proof (intro exI conjI)
    show "insert_frame w frame = Inr w'" by (rule i)
    show "length reps = length (framesToProcess w)" using r(1) by (simp only: e)
    show "\<forall>n \<in> set reps. 1 \<le> n" by (rule r)
    show "videoMediatorStream w' =
        videoMediatorStream w @ concat (map2 (\<lambda>n f. replicate n (blob f)) reps (framesToProcess w))"
      by (simp only: other v1 e)
    show "screenCastFrames w' =
        insort_key timestamp frame (drop (length (framesToProcess w)) (screenCastFrames w))"
      by (simp only: b' e le)
    show "status w' \<noteq> COMPLETED" using c1 other by simp
    show "options w' = options w" using o1 other by simp
  qed
qed

lemma inserts_written:
  assumes "sorted (map timestamp (screenCastFrames w))" and "status w \<noteq> COMPLETED"
  shows "\<exists>w' reps. inserts w ys = Inr w' \<and>
           length reps = length (flushed_by_inserts w ys) \<and> (\<forall>n \<in> set reps. 1 \<le> n) \<and>
           videoMediatorStream w' =
             videoMediatorStream w @
             concat (map2 (\<lambda>n f. replicate n (blob f)) reps (flushed_by_inserts w ys)) \<and>
           mset (flushed_by_inserts w ys @ screenCastFrames w') =
             mset (screenCastFrames w) + mset ys \<and>
           sorted (map timestamp (screenCastFrames w')) \<and>
           status w' \<noteq> COMPLETED \<and> options w' = options w"
  using assms
proof (induction ys arbitrary: w)
  case Nil
  show ?case
  proof (intro exI conjI)
    show "inserts w [] = Inr w" by simp
    show "length ([] :: nat list) = length (flushed_by_inserts w [])" by simp
    show "\<forall>n \<in> set ([] :: nat list). 1 \<le> n" by simp
    show "videoMediatorStream w =
        videoMediatorStream w @ concat (map2 (\<lambda>n f. replicate n (blob f)) [] (flushed_by_inserts w []))"
      by simp
    show "mset (flushed_by_inserts w [] @ screenCastFrames w) = mset (screenCastFrames w) + mset []"
      by simp
    show "sorted (map timestamp (screenCastFrames w))" by (rule Nil)
    show "status w \<noteq> COMPLETED" by (rule Nil)
    show "options w = options w" by simp
  qed
next
  case (Cons f fs)
  let ?D = "framesToProcess w"
  from insert_frame_written [OF Cons.prems, of f]
  obtain w1 reps1 where w1: "insert_frame w f = Inr w1"
      "length reps1 = length ?D" "\<forall>n \<in> set reps1. 1 \<le> n"
      "videoMediatorStream w1 =
         videoMediatorStream w @ concat (map2 (\<lambda>n f. replicate n (blob f)) reps1 ?D)"
      "screenCastFrames w1 = insort_key timestamp f (drop (length ?D) (screenCastFrames w))"
      "status w1 \<noteq> COMPLETED" "options w1 = options w"
    by blast
  have "sorted (map timestamp (drop (length ?D) (screenCastFrames w)))"
    using Cons.prems(1) sorted_wrt_drop [of "(\<le>)" "map timestamp (screenCastFrames w)" "length ?D"]
    by (simp add: drop_map)
  then have s1: "sorted (map timestamp (screenCastFrames w1))"
    by (simp add: w1(5) sorted_insort_key)
  from Cons.IH [OF s1 w1(6)]
  obtain w' reps2 where w': "inserts w1 fs = Inr w'"
      "length reps2 = length (flushed_by_inserts w1 fs)" "\<forall>n \<in> set reps2. 1 \<le> n"
      "videoMediatorStream w' =
         videoMediatorStream w1 @
         concat (map2 (\<lambda>n f. replicate n (blob f)) reps2 (flushed_by_inserts w1 fs))"
      "mset (flushed_by_inserts w1 fs @ screenCastFrames w') = mset (screenCastFrames w1) + mset fs"
      "sorted (map timestamp (screenCastFrames w'))"
      "status w' \<noteq> COMPLETED" "options w' = options w1"
    by blast
  have fl: "flushed_by_inserts w (f # fs) = ?D @ flushed_by_inserts w1 fs"
    by (simp add: w1(1))
  have "mset ?D + mset (drop (length ?D) (screenCastFrames w)) = mset (screenCastFrames w)"
    using framesToProcess_drop [of w] by (metis mset_append)
  then have m: "mset ((?D @ flushed_by_inserts w1 fs) @ screenCastFrames w') =
      mset (screenCastFrames w) + mset (f # fs)"
    using w'(5) by (simp add: w1(5))
  show ?case
  proof (intro exI conjI)
    show "inserts w (f # fs) = Inr w'" using w1(1) w'(1) by simp
    show "length (reps1 @ reps2) = length (flushed_by_inserts w (f # fs))"
      using w1(2) w'(2) by (simp only: fl length_append)
    show "\<forall>n \<in> set (reps1 @ reps2). 1 \<le> n" using w1(3) w'(3) by auto
    show "videoMediatorStream w' =
        videoMediatorStream w @
        concat (map2 (\<lambda>n f. replicate n (blob f)) (reps1 @ reps2) (flushed_by_inserts w (f # fs)))"
      using w1(2) by (simp only: fl w'(4) w1(4) concat_map2_append append_assoc)
    show "mset (flushed_by_inserts w (f # fs) @ screenCastFrames w') =
        mset (screenCastFrames w) + mset (f # fs)"
      using m by (simp only: fl)
    show "sorted (map timestamp (screenCastFrames w'))" by (rule w')
    show "status w' \<noteq> COMPLETED" by (rule w')
    show "options w' = options w" using w'(8) w1(7) by simp
  qed
qed

lemma flushed_by_inserts_few:
  assumes "sorted (map timestamp (screenCastFrames w))"
    and "length (screenCastFrames w) + length ys \<le> screenLimit"
  shows "flushed_by_inserts w ys = []"
  using assms
proof (induction ys arbitrary: w)
  case Nil
  show ?case by simp
next
  case (Cons f fs)
  let ?w1 = "w\<lparr>screenCastFrames := insort_key timestamp f (screenCastFrames w)\<rparr>"
  from Cons.prems have n: "length (screenCastFrames w) \<noteq> screenLimit" by simp
  with Cons.prems(1) have i: "insert_frame w f = Inr ?w1" by (rule insert_frame_not_full)
  have "sorted (map timestamp (screenCastFrames ?w1))"
    using Cons.prems(1) by (simp add: sorted_insort_key)
  moreover have "length (screenCastFrames ?w1) + length fs \<le> screenLimit"
    using Cons.prems(2) by simp
  ultimately have "flushed_by_inserts ?w1 fs = []" by (rule Cons.IH)
  with i n show ?case by (simp add: framesToProcess_def)
qed

lemma all_less_Suc_shift: "(\<forall>k < Suc n. P k) \<longleftrightarrow> P 0 \<and> (\<forall>k < n. P (Suc k))"
  by (auto simp: less_Suc_eq_0_disj)

lemma written_sorted_iff:
  assumes "sorted (map timestamp (done @ screenCastFrames w))"
    and "status w \<noteq> COMPLETED"
    and "inserts w ys = Inr w'"
  shows "sorted (map timestamp (done @ flushed_by_inserts w ys @ screenCastFrames w')) \<longleftrightarrow>
         (\<forall>k < length ys. \<forall>g \<in> set (done @ flushed_by_inserts w (take (Suc k) ys)).
            timestamp g \<le> timestamp (ys ! k))"
  using assms
proof (induction ys arbitrary: "done" w)
  case Nil
  then show ?case by simp
next
  case (Cons f fs)
  let ?D = "framesToProcess w"
  let ?rest = "drop (length ?D) (screenCastFrames w)"
  have sb: "sorted (map timestamp (screenCastFrames w))"
    using Cons.prems(1) by (simp add: sorted_append)
  from insert_frame_written [OF sb Cons.prems(2), of f]
  obtain w1 where w1: "insert_frame w f = Inr w1"
      "screenCastFrames w1 = insort_key timestamp f ?rest" "status w1 \<noteq> COMPLETED"
    by blast
  have run: "inserts w1 fs = Inr w'" using Cons.prems(3) w1(1) by simp
  have fl: "flushed_by_inserts w (f # fs) = ?D @ flushed_by_inserts w1 fs"
    by (simp add: w1(1))
  have flk: "flushed_by_inserts w (take (Suc (Suc k)) (f # fs)) =
      ?D @ flushed_by_inserts w1 (take (Suc k) fs)" for k
    by (simp add: w1(1))
  have fl0: "flushed_by_inserts w (take (Suc 0) (f # fs)) = ?D" by (simp add: w1(1))
  let ?P = "\<lambda>k. \<forall>g \<in> set (done @ flushed_by_inserts w (take (Suc k) (f # fs))).
            timestamp g \<le> timestamp ((f # fs) ! k)"
  have split: "(\<forall>k < length (f # fs). ?P k) \<longleftrightarrow>
      (\<forall>g \<in> set (done @ ?D). timestamp g \<le> timestamp f) \<and>
      (\<forall>k < length fs. \<forall>g \<in> set ((done @ ?D) @ flushed_by_inserts w1 (take (Suc k) fs)).
           timestamp g \<le> timestamp (fs ! k))"
  proof -
    have "(\<forall>k < length (f # fs). ?P k) \<longleftrightarrow> ?P 0 \<and> (\<forall>k < length fs. ?P (Suc k))"
      unfolding length_Cons by (rule all_less_Suc_shift)
    also have "?P 0 \<longleftrightarrow> (\<forall>g \<in> set (done @ ?D). timestamp g \<le> timestamp f)"
      by (simp only: fl0 nth_Cons_0)
    also have "(\<forall>k < length fs. ?P (Suc k)) \<longleftrightarrow>
        (\<forall>k < length fs. \<forall>g \<in> set ((done @ ?D) @ flushed_by_inserts w1 (take (Suc k) fs)).
           timestamp g \<le> timestamp (fs ! k))"
      by (simp only: flk nth_Cons_Suc append_assoc)
    finally show ?thesis .
  qed
  have whole: "done @ flushed_by_inserts w (f # fs) @ screenCastFrames w' =
      (done @ ?D) @ flushed_by_inserts w1 fs @ screenCastFrames w'"
    by (simp only: fl append_assoc)
  show ?case
  proof (cases "\<forall>g \<in> set (done @ ?D). timestamp g \<le> timestamp f")
    case True
    have "sorted (map timestamp ((done @ ?D) @ ?rest))"
      using Cons.prems(1) framesToProcess_drop [of w] by (simp only: append_assoc)
    from sorted_append_insort_key [OF this True]
    have "sorted (map timestamp ((done @ ?D) @ screenCastFrames w1))" by (simp only: w1(2))
    from Cons.IH [OF this w1(3) run] True show ?thesis
      unfolding split whole by blast
  next
    case False
    then obtain g where g: "g \<in> set (done @ ?D)" "timestamp f < timestamp g"
      by (meson not_le)
    obtain w2 where w2: "inserts w1 fs = Inr w2"
        "mset (flushed_by_inserts w1 fs @ screenCastFrames w2) = mset (screenCastFrames w1) + mset fs"
      using inserts_written [of w1 fs] w1(2,3) sb
        sorted_wrt_drop [of "(\<le>)" "map timestamp (screenCastFrames w)" "length ?D"]
      by (auto simp: sorted_insort_key drop_map)
    with run have "w2 = w'" by simp
    with w2(2) have "f \<in># mset (flushed_by_inserts w1 fs @ screenCastFrames w')"
      by (simp add: w1(2))
    then have f: "f \<in> set (flushed_by_inserts w1 fs @ screenCastFrames w')"
      by (simp only: set_mset_mset)
    have "\<not> sorted (map timestamp ((done @ ?D) @ flushed_by_inserts w1 fs @ screenCastFrames w'))"
    proof
      assume "sorted (map timestamp ((done @ ?D) @ flushed_by_inserts w1 fs @ screenCastFrames w'))"
      then have "\<forall>x \<in> set (done @ ?D). \<forall>y \<in> set (flushed_by_inserts w1 fs @ screenCastFrames w').
          timestamp x \<le> timestamp y"
        by (simp only: map_append sorted_append set_map) auto
      with g(1) f have "timestamp g \<le> timestamp f" by blast
      with g(2) show False by simp
    qed
    with False show ?thesis unfolding split whole by blast
  qed
qed

lemma stop_written:
  assumes "status w \<noteq> COMPLETED"
  shows "\<exists>reps. length reps = length (screenCastFrames w) \<and> (\<forall>n \<in> set reps. 1 \<le> n) \<and>
     stop w t =
       Inr (writerPromise w,
            w\<lparr>status := COMPLETED,
              videoMediatorStream :=
                videoMediatorStream w @
                concat (map2 (\<lambda>n f. replicate n (blob f)) reps (screenCastFrames w)),
              screenCastFrames := [],
              endCalls := endCalls w + 1\<rparr>)"
proof -
  obtain reps where r: "length reps = length (screenCastFrames w)" "\<forall>n \<in> set reps. 1 \<le> n"
     "processFrameBeforeWrite w (screenCastFrames w) t =
       Inr (w\<lparr>status := (if screenCastFrames w = [] then status w else IN_PROGRESS),
              videoMediatorStream :=
                videoMediatorStream w @
                concat (map2 (\<lambda>n f. replicate n (blob f)) reps (screenCastFrames w))\<rparr>)"
    using processFrameBeforeWrite_written [of "screenCastFrames w" w t] by blast
  have "stop w t =
       Inr (writerPromise w,
            w\<lparr>status := COMPLETED,
              videoMediatorStream :=
                videoMediatorStream w @
                concat (map2 (\<lambda>n f. replicate n (blob f)) reps (screenCastFrames w)),
              screenCastFrames := [],
              endCalls := endCalls w + 1\<rparr>)"
    using assms r(3) by (simp add: stop_def drainFrames_def)
  with r(1,2) show ?thesis by blast
qed

text \<open>
  Claim C1, amended. For every sequence of \<^verbatim>\<open>insert\<close> calls followed by \<^verbatim>\<open>stop\<close>, the
  chunks written to the encoder's stream are the images of all the frames, each repeated
  at least once, in the order in which the frames are flushed: the half drains in turn,
  then the buffer at \<^verbatim>\<open>stop\<close>. This order is non-decreasing in the timestamps exactly
  when no frame arrives with a timestamp below that of a frame that a half drain has
  already flushed when the frame is placed (the half drains of the earlier \<^verbatim>\<open>insert\<close>
  calls and of its own); a frame that does is written after the flushed frames with
  greater timestamps. At most 40 frames flush nothing before \<^verbatim>\<open>stop\<close>, whatever the
  order of their arrival.
\<close>

theorem written_in_timestamp_order_iff:
  "\<exists>w reps. insert_all_then_stop opts frames stoppedTime = Inr w \<and>
     mset (write_order opts frames) = mset frames \<and>
     length reps = length (write_order opts frames) \<and> (\<forall>n \<in> set reps. 1 \<le> n) \<and>
     videoMediatorStream w =
       concat (map2 (\<lambda>n f. replicate n (blob f)) reps (write_order opts frames)) \<and>
     (sorted (map timestamp (write_order opts frames)) \<longleftrightarrow>
        (\<forall>k < length frames.
           \<forall>g \<in> set (flushed_by_inserts (newWriter opts) (take (Suc k) frames)).
             timestamp g \<le> timestamp (frames ! k))) \<and>
     (length frames \<le> screenLimit \<longrightarrow>
        flushed_by_inserts (newWriter opts) frames = [] \<and>
        sorted (map timestamp (write_order opts frames)))"
proof -
  let ?nw = "newWriter opts"
  have init: "screenCastFrames ?nw = []" "videoMediatorStream ?nw = []" "status ?nw \<noteq> COMPLETED"
    by (simp_all add: newWriter_def)
  have s0: "sorted (map timestamp (screenCastFrames ?nw))" by (simp add: init)
  from inserts_written [OF s0 init(3), of frames]
  obtain w1 reps1 where w1: "inserts ?nw frames = Inr w1"
      "length reps1 = length (flushed_by_inserts ?nw frames)" "\<forall>n \<in> set reps1. 1 \<le> n"
      "videoMediatorStream w1 =
         concat (map2 (\<lambda>n f. replicate n (blob f)) reps1 (flushed_by_inserts ?nw frames))"
      "mset (flushed_by_inserts ?nw frames @ screenCastFrames w1) = mset frames"
      "sorted (map timestamp (screenCastFrames w1))"
      "status w1 \<noteq> COMPLETED"
    by (auto simp: init)
  have wo: "write_order opts frames = flushed_by_inserts ?nw frames @ screenCastFrames w1"
    by (simp add: write_order_def w1(1))
  from stop_written [OF w1(7), of stoppedTime]
  obtain reps2 where r2: "length reps2 = length (screenCastFrames w1)" "\<forall>n \<in> set reps2. 1 \<le> n"
     "stop w1 stoppedTime =
       Inr (writerPromise w1,
            w1\<lparr>status := COMPLETED,
              videoMediatorStream :=
                videoMediatorStream w1 @
                concat (map2 (\<lambda>n f. replicate n (blob f)) reps2 (screenCastFrames w1)),
              screenCastFrames := [],
              endCalls := endCalls w1 + 1\<rparr>)"
    by blast
  let ?w = "w1\<lparr>status := COMPLETED,
              videoMediatorStream :=
                videoMediatorStream w1 @
                concat (map2 (\<lambda>n f. replicate n (blob f)) reps2 (screenCastFrames w1)),
              screenCastFrames := [],
              endCalls := endCalls w1 + 1\<rparr>"
  have run: "insert_all_then_stop opts frames stoppedTime = Inr ?w"
    by (simp add: insert_all_then_stop_def w1(1) r2(3))
  have sink: "videoMediatorStream ?w =
      concat (map2 (\<lambda>n f. replicate n (blob f)) (reps1 @ reps2) (write_order opts frames))"
    using w1(2) by (simp add: w1(4) wo)
  have "sorted (map timestamp ([] @ screenCastFrames ?nw))" by (simp add: init)
  from written_sorted_iff [OF this init(3) w1(1)]
  have iff: "sorted (map timestamp (write_order opts frames)) \<longleftrightarrow>
        (\<forall>k < length frames.
           \<forall>g \<in> set (flushed_by_inserts ?nw (take (Suc k) frames)).
             timestamp g \<le> timestamp (frames ! k))"
    by (simp add: wo)
  have few: "flushed_by_inserts ?nw frames = [] \<and> sorted (map timestamp (write_order opts frames))"
    if "length frames \<le> screenLimit"
  proof -
    have "flushed_by_inserts ?nw frames = []"
      using flushed_by_inserts_few [OF s0, of frames] that by (simp add: init)
    with w1(6) show ?thesis by (simp add: wo)
  qed
  show ?thesis
  proof (intro exI conjI impI)
    show "insert_all_then_stop opts frames stoppedTime = Inr ?w" by (rule run)
    show "mset (write_order opts frames) = mset frames" using w1(5) by (simp only: wo)
    show "length (reps1 @ reps2) = length (write_order opts frames)"
      using w1(2) r2(1) by (simp add: wo)
    show "\<forall>n \<in> set (reps1 @ reps2). 1 \<le> n" using w1(3) r2(2) by auto
    show "videoMediatorStream ?w =
      concat (map2 (\<lambda>n f. replicate n (blob f)) (reps1 @ reps2) (write_order opts frames))"
      by (rule sink)
    show "sorted (map timestamp (write_order opts frames)) \<longleftrightarrow>
        (\<forall>k < length frames.
           \<forall>g \<in> set (flushed_by_inserts ?nw (take (Suc k) frames)).
             timestamp g \<le> timestamp (frames ! k))"
      by (rule iff)
    show "flushed_by_inserts ?nw frames = []" if "length frames \<le> screenLimit"
      using few [OF that] by simp
    show "sorted (map timestamp (write_order opts frames))" if "length frames \<le> screenLimit"
      using few [OF that] by simp
  qed
qed

text \<open>
  The amended theorem at the three frames with the timestamps 3, 1, 2, arriving in this
  order, 1 frame per second, stopped at the time 4; and at the frames 1 to 40 followed by
  the frame 0, where the order of writing is not sorted and so, by the theorem, the
  condition on the arrivals fails. With the frames 1 to 40 followed by 42 and 41, a half
  drain runs and the order of writing is sorted.
\<close>

theorem written_in_timestamp_order_iff_witness:
  "length [frame_no 3, frame_no 1, frame_no 2] \<le> screenLimit \<and>
   (\<exists>w reps. insert_all_then_stop \<lparr>fps = 1\<rparr> [frame_no 3, frame_no 1, frame_no 2] 4 = Inr w \<and>
      mset (write_order \<lparr>fps = 1\<rparr> [frame_no 3, frame_no 1, frame_no 2]) =
        mset [frame_no 3, frame_no 1, frame_no 2] \<and>
      length reps = length (write_order \<lparr>fps = 1\<rparr> [frame_no 3, frame_no 1, frame_no 2]) \<and>
      videoMediatorStream w =
        concat (map2 (\<lambda>n f. replicate n (blob f)) reps
                  (write_order \<lparr>fps = 1\<rparr> [frame_no 3, frame_no 1, frame_no 2])) \<and>
      sorted (map timestamp (write_order \<lparr>fps = 1\<rparr> [frame_no 3, frame_no 1, frame_no 2]))) \<and>
   write_order \<lparr>fps = 1\<rparr> [frame_no 3, frame_no 1, frame_no 2] =
     [frame_no 1, frame_no 2, frame_no 3] \<and>
   map_sum id videoMediatorStream
     (insert_all_then_stop \<lparr>fps = 1\<rparr> [frame_no 3, frame_no 1, frame_no 2] 4) =
     Inr [[1], [2], [3]] \<and>
   \<not> sorted (map timestamp (write_order \<lparr>fps = 1\<rparr> late_arrival)) \<and>
   \<not> (\<forall>k < length late_arrival.
         \<forall>g \<in> set (flushed_by_inserts (newWriter \<lparr>fps = 1\<rparr>) (take (Suc k) late_arrival)).
           timestamp g \<le> timestamp (late_arrival ! k)) \<and>
   map timestamp (write_order \<lparr>fps = 1\<rparr> (frames_1_to_40 @ [frame_no 42, frame_no 41])) =
     map real [1..<43]"
proof -
  let ?fs = "[frame_no 3, frame_no 1, frame_no 2]"
  have n: "\<not> sorted (map timestamp (write_order \<lparr>fps = 1\<rparr> late_arrival))" by code_simp
  with written_in_timestamp_order_iff [of "\<lparr>fps = 1\<rparr>" late_arrival 41]
  have m: "\<not> (\<forall>k < length late_arrival.
         \<forall>g \<in> set (flushed_by_inserts (newWriter \<lparr>fps = 1\<rparr>) (take (Suc k) late_arrival)).
           timestamp g \<le> timestamp (late_arrival ! k))"
    by blast
  have o: "map timestamp (write_order \<lparr>fps = 1\<rparr> (frames_1_to_40 @ [frame_no 42, frame_no 41])) =
     map real [1..<43]"
    by code_simp
  have a: "length ?fs \<le> screenLimit" by (simp add: screenLimit_def)
  with written_in_timestamp_order_iff [of "\<lparr>fps = 1\<rparr>" ?fs 4]
  have b: "\<exists>w reps. insert_all_then_stop \<lparr>fps = 1\<rparr> ?fs 4 = Inr w \<and>
      mset (write_order \<lparr>fps = 1\<rparr> ?fs) = mset ?fs \<and>
      length reps = length (write_order \<lparr>fps = 1\<rparr> ?fs) \<and>
      videoMediatorStream w =
        concat (map2 (\<lambda>n f. replicate n (blob f)) reps (write_order \<lparr>fps = 1\<rparr> ?fs)) \<and>
      sorted (map timestamp (write_order \<lparr>fps = 1\<rparr> ?fs))"
    by blast
  have c: "write_order \<lparr>fps = 1\<rparr> ?fs = [frame_no 1, frame_no 2, frame_no 3]"
    by code_simp
  have d: "map_sum id videoMediatorStream (insert_all_then_stop \<lparr>fps = 1\<rparr> ?fs 4) = Inr [[1], [2], [3]]"
    by code_simp
  from a b c d n m o show ?thesis by blast
qed

text \<open>
  Claim C1, as stated, fails. The frames with the timestamps 1 to 40 arrive, then the
  frame with the timestamp 0, and the writer is stopped at the time 41, with 1 frame per
  second. The image of the frame with timestamp \<open>n\<close> is the single byte \<open>n\<close>, so the
  first bytes of the written chunks are the timestamps of their frames: 1 to 20 (written
  by the half drain), then 0 (21 times), then 21 to 40. The frame 0 is written after
  frames with greater timestamps.
\<close>

theorem late_frame_written_out_of_order:
  "map_sum id (map hd \<circ> videoMediatorStream) (insert_all_then_stop \<lparr>fps = 1\<rparr> late_arrival 41) =
     Inr ([1..<21] @ replicate 21 0 @ [21..<41]) \<and>
   \<not> sorted ([1..<21] @ replicate 21 0 @ [21..<41] :: nat list)"
  by code_simp

end
